theory Spec2Isabelle
  imports Complex_Main
begin

section \<open>Data model (server/src/server.ts, lines 5-30)\<close>

text \<open>
  A \<open>Point\<close> is \<open>{x, y, t}\<close>; the authority never computes with the coordinates, it only
  stores and forwards them. The fields are named \<open>px\<close>, \<open>py\<close>, \<open>pt\<close> so that
  \<open>x\<close>, \<open>y\<close> and \<open>t\<close> stay available as variable names.
\<close>

record point =
  px :: real
  py :: real
  pt :: real

datatype tool = pen | eraser

text \<open>
  A \<open>Stroke\<close>. The fields \<open>id\<close> and \<open>size\<close> of the source are \<open>id'\<close> and \<open>size'\<close>
  here. The optional field \<open>removed?: boolean\<close> is absent on a new stroke, \<open>true\<close>
  after an undo and \<open>false\<close> after a redo.
\<close>

record stroke =
  id' :: string
  userId :: string
  color :: string
  size' :: real
  tool :: tool
  points :: "point list"
  removed :: "bool option"

text \<open>The payload \<open>stroke: {color, size, tool}\<close> of an inbound \<open>begin_stroke\<close>.\<close>

record stroke_meta =
  m_color :: string
  m_size :: real
  m_tool :: tool

datatype msg =
    JoinRoom string string
  | BeginStroke string stroke_meta
  | AddPoints string string "point list"
  | EndStroke string string
  | Undo string string
  | Redo string string
  | Clear string
  | Cursor string string real real

text \<open>
  \<open>userStacks\<close> is a dictionary from user ids to arrays; the top of a stack is the
  last element of the array (\<open>push\<close> appends, \<open>pop\<close> removes the last element). The map
  holds the dictionary's own properties; what a lookup finds under a key that is not an
  own property is the subject of the section on property lookup below. A message is taken
  as parsed and of the declared type \<open>Msg\<close>.
\<close>

record room_state =
  strokes :: "stroke list"
  userStacks :: "string \<rightharpoonup> string list"

section \<open>Property lookup on plain objects\<close>

text \<open>
  \<open>rooms\<close> and \<open>userStacks\<close> are plain objects (\<open>{}\<close>) indexed by strings that clients
  choose. A lookup \<open>obj[k]\<close> finds an own property first and then what \<open>Object.prototype\<close>
  holds under \<open>k\<close>: one of its methods, a function object whose \<open>length\<close> is its number
  of parameters, or, under \<open>__proto__\<close>, \<open>Object.prototype\<close> itself. None of these is an
  array: they have no \<open>push\<close>, \<open>pop\<close> or \<open>find\<close>, and their properties \<open>strokes\<close> and
  \<open>userStacks\<close> are \<open>undefined\<close>; \<open>Object.prototype\<close> has no \<open>length\<close>. All of them are
  truthy. The table is the one of the language standard (ECMAScript, the properties of the
  Object prototype object).
\<close>

datatype inherited = Method nat | ObjectPrototype

definition object_prototype :: "string \<Rightarrow> inherited option" where
  "object_prototype k =
     (if k = ''__proto__'' then Some ObjectPrototype
      else if k \<in> set [''toString'', ''valueOf'', ''toLocaleString''] then Some (Method 0)
      else if k \<in> set [''constructor'', ''hasOwnProperty'', ''isPrototypeOf'',
                ''propertyIsEnumerable'', ''__lookupGetter__'', ''__lookupSetter__'']
        then Some (Method 1)
      else if k \<in> set [''__defineGetter__'', ''__defineSetter__''] then Some (Method 2)
      else None)"

text \<open>The result of \<open>obj[k]\<close> for a dictionary whose own properties are the map \<open>obj\<close>.\<close>

datatype 'a property = Own 'a | Inherit inherited | Undefined

definition get_prop :: "(string \<rightharpoonup> 'a) \<Rightarrow> string \<Rightarrow> 'a property" where
  "get_prop obj k =
     (case obj k of
        Some v \<Rightarrow> Own v
      | None \<Rightarrow> (case object_prototype k of Some i \<Rightarrow> Inherit i | None \<Rightarrow> Undefined))"

text \<open>
  The \<open>state\<close> field of the \<open>room_state\<close> event as \<open>JSON.stringify\<close> writes it: a room
  state with its strokes and stacks; nothing at all when the value is a function (the
  field is left out); \<open>{}\<close> when it is \<open>Object.prototype\<close>.
\<close>

datatype snapshot = Snapshot room_state | Omitted | EmptyObject

text \<open>Outbound events, one constructor per \<open>type\<close> tag the server sends.\<close>

datatype event =
    room_state_ev snapshot
  | begin_stroke_ev stroke
  | add_points_ev string "point list"
  | end_stroke_ev string
  | remove_stroke_ev string
  | restore_stroke_ev stroke
  | clear_ev
  | cursor_ev string real real

datatype js_error = TypeError

text \<open>
  What a handler does towards the outside, in order: \<open>Broadcast e False\<close> is
  \<open>broadcast(room, e)\<close>, \<open>Broadcast e True\<close> is \<open>broadcast(room, e, ws)\<close> (the sender
  excepted), \<open>Send e\<close> is \<open>ws.send(e)\<close> on the sender's own socket, and \<open>Throw e\<close> is an
  exception that leaves the handler: nothing of the handler runs after it, and what it
  assigned before stays assigned. No handler catches an exception.
\<close>

datatype out = Broadcast event bool | Send event | Throw js_error

section \<open>Helpers for JavaScript's array operations\<close>

text \<open>JavaScript truthiness of the optional flag: \<open>undefined\<close> and \<open>false\<close> are falsy.\<close>

definition truthy :: "bool option \<Rightarrow> bool" where
  "truthy b = (b = Some True)"

text \<open>\<open>Array.prototype.findIndex\<close>, with \<open>None\<close> for \<open>-1\<close>.\<close>

fun findIndex :: "('a \<Rightarrow> bool) \<Rightarrow> 'a list \<Rightarrow> nat option" where
  "findIndex P [] = None"
| "findIndex P (a # as) = (if P a then Some 0 else map_option Suc (findIndex P as))"

text \<open>
  \<open>Array.prototype.find\<close> is \<^const>\<open>List.find\<close>. It returns a reference to the object
  in the array, so a later assignment to a field of the result changes the array's element
  where it sits: \<open>mutate_found P f\<close> applies \<open>f\<close> to the first element that satisfies
  \<open>P\<close>, the one \<open>find\<close> returns.
\<close>

fun mutate_found :: "('a \<Rightarrow> bool) \<Rightarrow> ('a \<Rightarrow> 'a) \<Rightarrow> 'a list \<Rightarrow> 'a list" where
  "mutate_found P f [] = []"
| "mutate_found P f (a # as) = (if P a then f a # as else a # mutate_found P f as)"

section \<open>The authority's handlers on one room (server/src/server.ts, lines 74-140)\<close>

text \<open>
  \<open>(state.userStacks[k] ||= []).push(v)\<close>: an own array is truthy even when empty and
  gets the value; with nothing under \<open>k\<close> a new array is stored; an inherited value is
  truthy, so nothing is stored, and it has no \<open>push\<close>: the call raises a \<open>TypeError\<close>.
\<close>

definition push_stack :: "(string \<rightharpoonup> string list) \<Rightarrow> string \<Rightarrow> string \<Rightarrow> js_error + (string \<rightharpoonup> string list)" where
  "push_stack stacks k v =
     (case get_prop stacks k of
        Own st \<Rightarrow> Inr (stacks(k \<mapsto> st @ [v]))
      | Undefined \<Rightarrow> Inr (stacks(k \<mapsto> [v]))
      | Inherit i \<Rightarrow> Inl TypeError)"

text \<open>\<open>case "begin_stroke"\<close>; \<open>uid\<close> is \<open>ws.userId\<close>, \<open>uuid\<close> the result of
  \<open>crypto.randomUUID()\<close>.\<close>

definition begin_stroke :: "room_state \<Rightarrow> string \<Rightarrow> string \<Rightarrow> stroke_meta \<Rightarrow> room_state \<times> out list" where
  "begin_stroke state uid uuid meta =
     (let s = \<lparr>id' = uuid, userId = uid, color = m_color meta, size' = m_size meta,
                tool = m_tool meta, points = [], removed = None\<rparr>;
          state1 = state\<lparr>strokes := strokes state @ [s]\<rparr>
      in case push_stack (userStacks state1) (userId s) uuid of
           Inl e \<Rightarrow> (state1, [Throw e])
         | Inr stacks \<Rightarrow>
             (let payload = begin_stroke_ev (s\<lparr>points := []\<rparr>)
              in (state1\<lparr>userStacks := stacks\<rparr>, [Broadcast payload False, Send payload])))"

text \<open>\<open>case "add_points"\<close>.\<close>

definition add_points :: "room_state \<Rightarrow> string \<Rightarrow> point list \<Rightarrow> room_state \<times> out list" where
  "add_points state strokeId pts =
     (let live = (\<lambda>st. id' st = strokeId \<and> \<not> truthy (removed st)) in
      case find live (strokes state) of
        None \<Rightarrow> (state, [])
      | Some s \<Rightarrow>
          (let pts' = take 200 pts in
           (state\<lparr>strokes := mutate_found live (\<lambda>st. st\<lparr>points := points st @ pts'\<rparr>) (strokes state)\<rparr>,
            [Broadcast (add_points_ev (id' s) pts') True])))"

text \<open>\<open>case "end_stroke"\<close>.\<close>

definition end_stroke :: "room_state \<Rightarrow> string \<Rightarrow> room_state \<times> out list" where
  "end_stroke state strokeId = (state, [Broadcast (end_stroke_ev strokeId) True])"

text \<open>
  The \<open>while (stack.length)\<close> loop of \<open>case "undo"\<close>: the strokes and the stack go in,
  the strokes, what is left of the stack, and the broadcasts come out.
\<close>

function undo_loop :: "stroke list \<Rightarrow> string list \<Rightarrow> stroke list \<times> string list \<times> out list" where
  "undo_loop ss stack =
     (if stack = [] then (ss, stack, [])
      else
        (let i = last stack; stack' = butlast stack;
             live = (\<lambda>st. id' st = i \<and> \<not> truthy (removed st)) in
         case find live ss of
           Some s \<Rightarrow> (mutate_found live (\<lambda>st. st\<lparr>removed := Some True\<rparr>) ss, stack',
                      [Broadcast (remove_stroke_ev i) False])
         | None \<Rightarrow> undo_loop ss stack'))"
  by pat_completeness auto
termination
  by (relation "measure (\<lambda>(ss, stack). length stack)") auto

declare undo_loop.simps [simp del]

text \<open>
  \<open>case "undo"\<close>. With an own stack the loop pops from the stored array in place. With
  nothing under the key, \<open>|| []\<close> gives a fresh empty array that is not stored. An
  inherited value is truthy and is taken as the stack: a method with parameters has a
  positive \<open>length\<close>, the loop is entered and \<open>stack.pop()\<close> raises a \<open>TypeError\<close>; for a
  method without parameters and for \<open>Object.prototype\<close> (\<open>length\<close> is \<open>0\<close> or \<open>undefined\<close>)
  the loop is not entered.
\<close>

definition undo :: "room_state \<Rightarrow> string \<Rightarrow> room_state \<times> out list" where
  "undo state uid =
     (case get_prop (userStacks state) uid of
        Own stack \<Rightarrow>
          (case undo_loop (strokes state) stack of
             (ss', stack', outs) \<Rightarrow>
               (state\<lparr>strokes := ss', userStacks := (userStacks state)(uid \<mapsto> stack')\<rparr>, outs))
      | Undefined \<Rightarrow> (state, [])
      | Inherit (Method n) \<Rightarrow> (if n = 0 then (state, []) else (state, [Throw TypeError]))
      | Inherit ObjectPrototype \<Rightarrow> (state, []))"

text \<open>\<open>case "redo"\<close>: the scan runs over a reversed copy of the array, whose elements are
  the same objects, so the assignment to \<open>s.removed\<close> changes the stroke in the room; it
  comes before the push, which may raise.\<close>

definition redo :: "room_state \<Rightarrow> string \<Rightarrow> room_state \<times> out list" where
  "redo state uid =
     (case findIndex (\<lambda>st. userId st = uid \<and> truthy (removed st)) (rev (strokes state)) of
        None \<Rightarrow> (state, [])
      | Some idx \<Rightarrow>
          (let s = (rev (strokes state)) ! idx;
               s' = s\<lparr>removed := Some False\<rparr>;
               state1 = state\<lparr>strokes := rev ((rev (strokes state))[idx := s'])\<rparr>
           in case push_stack (userStacks state1) uid (id' s') of
                Inl e \<Rightarrow> (state1, [Throw e])
              | Inr stacks \<Rightarrow>
                  (state1\<lparr>userStacks := stacks\<rparr>, [Broadcast (restore_stroke_ev s') False])))"

text \<open>\<open>case "clear"\<close>.\<close>

definition clear :: "room_state \<Rightarrow> room_state \<times> out list" where
  "clear state = (state\<lparr>strokes := [], userStacks := Map.empty\<rparr>, [Broadcast clear_ev False])"

text \<open>\<open>case "cursor"\<close>.\<close>

definition cursor :: "room_state \<Rightarrow> string \<Rightarrow> real \<Rightarrow> real \<Rightarrow> room_state \<times> out list" where
  "cursor state uid cx cy = (state, [Broadcast (cursor_ev uid cx cy) True])"

text \<open>
  The \<open>switch (msg.type)\<close>. \<open>uid\<close> is \<open>ws.userId\<close> and \<open>uuid\<close> the identifier
  \<open>crypto.randomUUID()\<close> returns when the handler asks for one. The \<open>room\<close> field of the
  message is not read. \<open>join_room\<close> has no case in the switch (it is handled before it).
\<close>

fun handle :: "room_state \<Rightarrow> string \<Rightarrow> string \<Rightarrow> msg \<Rightarrow> room_state \<times> out list" where
  "handle state uid uuid (BeginStroke rm meta) = begin_stroke state uid uuid meta"
| "handle state uid uuid (AddPoints rm strokeId pts) = add_points state strokeId pts"
| "handle state uid uuid (EndStroke rm strokeId) = end_stroke state strokeId"
| "handle state uid uuid (Undo rm u) = undo state u"
| "handle state uid uuid (Redo rm u) = redo state u"
| "handle state uid uuid (Clear rm) = clear state"
| "handle state uid uuid (Cursor rm u cx cy) = cursor state u cx cy"
| "handle state uid uuid (JoinRoom rm u) = (state, [])"

section \<open>Connections, fan-out and the message handler (server/src/server.ts, lines 32-72)\<close>

datatype ready_state = CONNECTING | OPEN | CLOSING | CLOSED

text \<open>
  A connection object of \<open>wss.clients\<close> with the two fields the server attaches to it.
  Objects are compared by identity (\<open>client !== except\<close>); \<open>cid\<close> is that identity.
\<close>

record conn =
  cid :: nat
  readyState :: ready_state
  ws_room :: string
  ws_userId :: string

record server =
  rooms :: "string \<rightharpoonup> room_state"
  clients :: "conn list"

text \<open>
  \<open>getRoom\<close>: the registry after the call, and what the call returns. \<open>rooms[room]\<close> is
  a room state when the room is registered; when an inherited value stands under the name,
  \<open>!rooms[room]\<close> is false, nothing is registered and that value is returned.
\<close>

datatype room_ref = Room room_state | NotARoom inherited

definition getRoom :: "(string \<rightharpoonup> room_state) \<Rightarrow> string \<Rightarrow> (string \<rightharpoonup> room_state) \<times> room_ref" where
  "getRoom rs room =
     (case get_prop rs room of
        Own state \<Rightarrow> (rs, Room state)
      | Inherit v \<Rightarrow> (rs, NotARoom v)
      | Undefined \<Rightarrow>
          (rs(room \<mapsto> \<lparr>strokes = [], userStacks = Map.empty\<rparr>),
           Room \<lparr>strokes = [], userStacks = Map.empty\<rparr>))"

text \<open>What the outside sees of a message handler, in order: a message delivered to a
  connection, or an exception that nothing caught.\<close>

datatype effect = Deliver nat event | Uncaught js_error

text \<open>\<open>broadcast(room, data, except?)\<close>: the deliveries, in the order of \<open>wss.clients\<close>.\<close>

definition broadcast :: "conn list \<Rightarrow> string \<Rightarrow> event \<Rightarrow> nat option \<Rightarrow> effect list" where
  "broadcast cs room data except =
     map (\<lambda>client. Deliver (cid client) data)
       (filter (\<lambda>client. readyState client = OPEN \<and> ws_room client = room \<and> Some (cid client) \<noteq> except) cs)"

text \<open>\<open>ws.send(data)\<close> of the \<open>ws\<close> package: a socket that is not open transmits nothing.\<close>

definition send :: "conn \<Rightarrow> event \<Rightarrow> effect list" where
  "send ws data = (if readyState ws = OPEN then [Deliver (cid ws) data] else [])"

fun emit :: "conn list \<Rightarrow> string \<Rightarrow> conn \<Rightarrow> out \<Rightarrow> effect list" where
  "emit cs room ws (Broadcast data False) = broadcast cs room data None"
| "emit cs room ws (Broadcast data True) = broadcast cs room data (Some (cid ws))"
| "emit cs room ws (Send data) = send ws data"
| "emit cs room ws (Throw e) = [Uncaught e]"

text \<open>\<open>wss.on("connection", ...)\<close>: a new socket starts in room \<open>default\<close> with a random
  user id.\<close>

definition connection :: "server \<Rightarrow> nat \<Rightarrow> string \<Rightarrow> server" where
  "connection srv k uuid =
     srv\<lparr>clients := clients srv @ [\<lparr>cid = k, readyState = OPEN, ws_room = ''default'', ws_userId = uuid\<rparr>]\<rparr>"

text \<open>
  The switch when \<open>getRoom\<close> returned an inherited value for \<open>state\<close>: \<open>state.strokes\<close>
  and \<open>state.userStacks\<close> are \<open>undefined\<close>, so the first use of either raises a
  \<open>TypeError\<close> (\<open>begin_stroke\<close> at \<open>state.strokes.push\<close>, \<open>add_points\<close> at
  \<open>state.strokes.find\<close>, \<open>undo\<close> at \<open>state.userStacks[...]\<close>, \<open>redo\<close> at
  \<open>[...state.strokes]\<close>), each before any other effect; \<open>end_stroke\<close> and \<open>cursor\<close> do not
  read \<open>state\<close>. \<open>clear\<close> assigns \<open>strokes\<close> and \<open>userStacks\<close> on the built-in object
  itself, after which the table \<open>object_prototype\<close> does not describe the process any
  more: the result \<open>None\<close> says that the model does not follow the process further.
\<close>

fun handle_inherited :: "msg \<Rightarrow> out list option" where
  "handle_inherited (BeginStroke rm meta) = Some [Throw TypeError]"
| "handle_inherited (AddPoints rm strokeId pts) = Some [Throw TypeError]"
| "handle_inherited (EndStroke rm strokeId) = Some [Broadcast (end_stroke_ev strokeId) True]"
| "handle_inherited (Undo rm u) = Some [Throw TypeError]"
| "handle_inherited (Redo rm u) = Some [Throw TypeError]"
| "handle_inherited (Clear rm) = None"
| "handle_inherited (Cursor rm u cx cy) = Some [Broadcast (cursor_ev u cx cy) True]"
| "handle_inherited (JoinRoom rm u) = Some []"

text \<open>What \<open>join_room\<close> sends as the state.\<close>

fun snapshot_of :: "room_ref \<Rightarrow> snapshot" where
  "snapshot_of (Room state) = Snapshot state"
| "snapshot_of (NotARoom (Method n)) = Omitted"
| "snapshot_of (NotARoom ObjectPrototype) = EmptyObject"

text \<open>
  \<open>ws.on("message", ...)\<close> for the socket with identity \<open>w\<close>, on a message that parsed.
  The result is the server afterwards and what the outside saw, in order; after an
  exception the server is as the handler left it. A socket that is not among the clients
  has no handler running.
\<close>

definition on_message :: "server \<Rightarrow> nat \<Rightarrow> string \<Rightarrow> msg \<Rightarrow> (server \<times> effect list) option" where
  "on_message srv w uuid m =
     (case find (\<lambda>c. cid c = w) (clients srv) of
        None \<Rightarrow> Some (srv, [])
      | Some ws \<Rightarrow>
          (case m of
             JoinRoom rm u \<Rightarrow>
               (let ws' = ws\<lparr>ws_room := rm, ws_userId := (if u \<noteq> [] then u else ws_userId ws)\<rparr> in
                case getRoom (rooms srv) rm of
                  (rooms', state) \<Rightarrow>
                    Some (\<lparr>rooms = rooms', clients = mutate_found (\<lambda>c. cid c = w) (\<lambda>c. ws') (clients srv)\<rparr>,
                          send ws' (room_state_ev (snapshot_of state))))
           | _ \<Rightarrow>
               (let room = ws_room ws in
                case getRoom (rooms srv) room of
                  (rooms', Room state) \<Rightarrow>
                    (case handle state (ws_userId ws) uuid m of
                       (state', outs) \<Rightarrow>
                         Some (srv\<lparr>rooms := rooms'(room \<mapsto> state')\<rparr>,
                               concat (map (emit (clients srv) room ws) outs)))
                | (rooms', NotARoom v) \<Rightarrow>
                    (case handle_inherited m of
                       None \<Rightarrow> None
                     | Some outs \<Rightarrow>
                         Some (srv\<lparr>rooms := rooms'\<rparr>, concat (map (emit (clients srv) room ws) outs))))))"

section \<open>The client's \<open>begin_stroke\<close> handler (client/src/main.ts, lines 60-86)\<close>

text \<open>The client's module state; \<open>strokes\<close>, \<open>userId\<close> and \<open>room\<close> of the source carry the
  suffix \<open>_c\<close> here. Rendering is not part of the state.\<close>

record client =
  strokes_c :: "stroke list"
  userId_c :: string
  room_c :: string
  drawing :: bool
  currentId :: "string option"
  pendingPoints :: "point list"
  localTempStroke :: "stroke option"

text \<open>The handler's result is the client afterwards and the messages it sends.\<close>

definition on_begin_stroke :: "client \<Rightarrow> stroke \<Rightarrow> client \<times> msg list" where
  "on_begin_stroke cl st =
     (let s = st\<lparr>points := []\<rparr>;
          cl1 = cl\<lparr>strokes_c := strokes_c cl @ [s]\<rparr> in
      if userId s = userId_c cl \<and> drawing cl \<and> currentId cl = None then
        (if pendingPoints cl \<noteq> [] then
           (cl\<lparr>strokes_c := strokes_c cl @ [s\<lparr>points := points s @ pendingPoints cl\<rparr>],
               currentId := Some (id' s), pendingPoints := [], localTempStroke := None\<rparr>,
            [AddPoints (room_c cl) (id' s) (pendingPoints cl)])
         else (cl1\<lparr>currentId := Some (id' s), localTempStroke := None\<rparr>, []))
      else (cl1, []))"

section \<open>Sequences of messages to one room\<close>

text \<open>
  The authority handles one message at a time, each to completion. \<open>run\<close> applies the
  switch to a list of messages of one room in the order received; every message comes
  with the sender's \<open>ws.userId\<close> and the identifier \<open>crypto.randomUUID()\<close> would return.
\<close>

fun run :: "room_state \<Rightarrow> (string \<times> string \<times> msg) list \<Rightarrow> room_state \<times> out list" where
  "run state [] = (state, [])"
| "run state ((uid, uuid, m) # rest) =
     (case handle state uid uuid m of
        (state', outs) \<Rightarrow> (case run state' rest of (state'', outs') \<Rightarrow> (state'', outs @ outs')))"

text \<open>The payload of an \<open>add_points\<close> message (no points for any other message), and the
  messages \<open>add_points\<close> and \<open>end_stroke\<close> that name a given stroke.\<close>

fun payload :: "msg \<Rightarrow> point list" where
  "payload (AddPoints rm strokeId pts) = pts"
| "payload m = []"


section \<open>Reachable room states and the stack invariant\<close>

fun is_begin_stroke :: "msg \<Rightarrow> bool" where
  "is_begin_stroke (BeginStroke rm meta) = True"
| "is_begin_stroke m = False"

text \<open>
  The states a room goes through: it starts as \<open>getRoom\<close> creates it, and every message
  handled in it is a step of the switch. The identifier handed to a \<open>begin_stroke\<close> is
  carried by no stroke of the room. A step whose handler raises counts with the state the
  handler had assigned when it raised; what the runtime does with the process after an
  exception that nothing caught is not part of the model.
\<close>

inductive reachable :: "room_state \<Rightarrow> bool" where
  created: "reachable \<lparr>strokes = [], userStacks = Map.empty\<rparr>"
| handled: "reachable state \<Longrightarrow> (is_begin_stroke m \<longrightarrow> uuid \<notin> id' ` set (strokes state)) \<Longrightarrow>
     reachable (fst (handle state uid uuid m))"

code_pred reachable .

text \<open>The ids of the strokes of user \<open>u\<close> that are not tombstoned, in creation order.\<close>

definition live_ids :: "stroke list \<Rightarrow> string \<Rightarrow> string list" where
  "live_ids ss u = map id' (filter (\<lambda>s. userId s = u \<and> \<not> truthy (removed s)) ss)"

text \<open>The invariant: stroke ids are pairwise distinct; a stack holds, without repetition,
  exactly the ids of its user's strokes that are not tombstoned; and a user without a
  stack whose id is not an inherited property name has no such stroke.\<close>

definition room_inv :: "room_state \<Rightarrow> bool" where
  "room_inv state \<longleftrightarrow>
     distinct (map id' (strokes state)) \<and>
     (\<forall>u. case userStacks state u of
             None \<Rightarrow> object_prototype u = None \<longrightarrow> live_ids (strokes state) u = []
           | Some st \<Rightarrow> distinct st \<and> set st = set (live_ids (strokes state) u))"

section \<open>Concrete strokes, rooms and servers on which the theorems are exercised\<close>

definition p0 :: point where
  "p0 = \<lparr>px = 0, py = 0, pt = 0\<rparr>"

definition p1 :: point where
  "p1 = \<lparr>px = 5, py = 5, pt = 1\<rparr>"

definition meta0 :: stroke_meta where
  "meta0 = \<lparr>m_color = ''#000'', m_size = 2, m_tool = pen\<rparr>"

definition stroke_A :: stroke where
  "stroke_A = \<lparr>id' = ''a'', userId = ''u'', color = ''#000'', size' = 2, tool = pen,
                points = [p0, p1], removed = None\<rparr>"

definition stroke_B :: stroke where
  "stroke_B = \<lparr>id' = ''b'', userId = ''u'', color = ''#000'', size' = 2, tool = pen,
                points = [p1], removed = None\<rparr>"

definition stroke_C :: stroke where
  "stroke_C = \<lparr>id' = ''c'', userId = ''u'', color = ''#000'', size' = 2, tool = eraser,
                points = [p1, p0], removed = None\<rparr>"

text \<open>The room after one user created the strokes A, B and C in that order.\<close>

definition room_ABC :: room_state where
  "room_ABC = \<lparr>strokes = [stroke_A, stroke_B, stroke_C],
                userStacks = [''u'' \<mapsto> [''a'', ''b'', ''c'']]\<rparr>"

text \<open>Four sockets: the sender and a second open socket in room \<open>r\<close>, a closed socket in
  room \<open>r\<close>, and an open socket in another room.\<close>

definition conn1 :: conn where
  "conn1 = \<lparr>cid = 1, readyState = OPEN, ws_room = ''r'', ws_userId = ''u''\<rparr>"

definition conn2 :: conn where
  "conn2 = \<lparr>cid = 2, readyState = OPEN, ws_room = ''r'', ws_userId = ''v''\<rparr>"

definition conn3 :: conn where
  "conn3 = \<lparr>cid = 3, readyState = CLOSED, ws_room = ''r'', ws_userId = ''w''\<rparr>"

definition conn4 :: conn where
  "conn4 = \<lparr>cid = 4, readyState = OPEN, ws_room = ''q'', ws_userId = ''z''\<rparr>"

definition server_ABC :: server where
  "server_ABC = \<lparr>rooms = [''r'' \<mapsto> room_ABC], clients = [conn1, conn2, conn3, conn4]\<rparr>"

text \<open>The room \<open>room_ABC\<close> after C and B were tombstoned and popped.\<close>

definition room_undone :: room_state where
  "room_undone = \<lparr>strokes = [stroke_A, stroke_B\<lparr>removed := Some True\<rparr>, stroke_C\<lparr>removed := Some True\<rparr>],
                   userStacks = [''u'' \<mapsto> [''a'']]\<rparr>"

definition server_undone :: server where
  "server_undone = \<lparr>rooms = [''r'' \<mapsto> room_undone], clients = [conn1, conn2, conn3, conn4]\<rparr>"

text \<open>A batch of 250 points.\<close>

definition batch250 :: "point list" where
  "batch250 = replicate 120 p0 @ replicate 130 p1"

text \<open>A room state, not one that messages produce, whose stack for \<open>u\<close> holds ids that
  name no removable stroke: the id \<open>a\<close>, below \<open>b\<close> (tombstoned) and \<open>x\<close> (missing), names
  a stroke that can be removed.\<close>

definition room_mixed :: room_state where
  "room_mixed = \<lparr>strokes = [stroke_A, stroke_B\<lparr>removed := Some True\<rparr>],
                  userStacks = [''u'' \<mapsto> [''a'', ''b'', ''x'']]\<rparr>"

definition server_mixed :: server where
  "server_mixed = \<lparr>rooms = [''r'' \<mapsto> room_mixed], clients = [conn1, conn2, conn3, conn4]\<rparr>"

text \<open>The room after A and B were created, B was undone, and nothing was redone: B is
  tombstoned and the stack holds \<open>a\<close> only.\<close>

definition room_A_b :: room_state where
  "room_A_b = \<lparr>strokes = [stroke_A, stroke_B\<lparr>removed := Some True\<rparr>],
                userStacks = [''u'' \<mapsto> [''a'']]\<rparr>"

text \<open>The room \<open>getRoom\<close> creates.\<close>

definition empty_room :: room_state where
  "empty_room = \<lparr>strokes = [], userStacks = Map.empty\<rparr>"

text \<open>A server whose room \<open>r\<close> was cleared.\<close>

definition server_cleared :: server where
  "server_cleared = \<lparr>rooms = [''r'' \<mapsto> \<lparr>strokes = [], userStacks = Map.empty\<rparr>],
                     clients = [conn1, conn2, conn3, conn4]\<rparr>"

text \<open>
  Sockets that chose names \<open>Object.prototype\<close> has: one that joined room \<open>r\<close> with the
  user id \<open>constructor\<close>, and one that joined the room called \<open>constructor\<close>. Both come
  about by a \<open>join_room\<close> message with these strings.
\<close>

definition conn5 :: conn where
  "conn5 = \<lparr>cid = 5, readyState = OPEN, ws_room = ''r'', ws_userId = ''constructor''\<rparr>"

definition conn6 :: conn where
  "conn6 = \<lparr>cid = 6, readyState = OPEN, ws_room = ''constructor'', ws_userId = ''y''\<rparr>"

definition server_names :: server where
  "server_names = \<lparr>rooms = [''r'' \<mapsto> \<lparr>strokes = [], userStacks = Map.empty\<rparr>],
                   clients = [conn1, conn5, conn6]\<rparr>"

text \<open>The room in which user \<open>u\<close> began one stroke, with id \<open>a\<close>, and undid it.\<close>

definition room_one_undone :: room_state where
  "room_one_undone = fst (handle (fst (handle \<lparr>strokes = [], userStacks = Map.empty\<rparr>
       ''u'' ''a'' (BeginStroke ''r'' meta0))) ''u'' ''x'' (Undo ''r'' ''u''))"

definition server_one_undone :: server where
  "server_one_undone = \<lparr>rooms = [''r'' \<mapsto> room_one_undone], clients = [conn1, conn2, conn3, conn4]\<rparr>"

text \<open>The room in which the user \<open>constructor\<close> began one stroke, with id \<open>a\<close>.\<close>

definition room_constructor :: room_state where
  "room_constructor = fst (handle \<lparr>strokes = [], userStacks = Map.empty\<rparr>
       ''constructor'' ''a'' (BeginStroke ''r'' meta0))"

text \<open>The room after user \<open>u\<close> began two strokes, which received the ids \<open>a\<close> and \<open>b\<close>.\<close>

definition room_two :: room_state where
  "room_two = fst (handle (fst (handle \<lparr>strokes = [], userStacks = Map.empty\<rparr>
       ''u'' ''a'' (BeginStroke ''r'' meta0))) ''u'' ''b'' (BeginStroke ''r'' meta0))"

section \<open>Auxiliary facts about the array helpers, property lookup and the dispatcher\<close>

lemma find_mutate_found:
  "find P xs = Some s \<Longrightarrow>
     \<exists>i<length xs. xs ! i = s \<and> P s \<and> (\<forall>j<i. \<not> P (xs ! j)) \<and> mutate_found P f xs = xs[i := f s]"
proof (induction xs)
  case Nil
  then show ?case by simp
next
  case (Cons a as)
  show ?case
  proof (cases "P a")
    case True
    with Cons.prems have "a = s" by simp
    with True show ?thesis by (intro exI[of _ 0]) simp
  next
    case False
    with Cons.prems have "find P as = Some s" by simp
    from Cons.IH[OF this] obtain i where i: "i < length as" "as ! i = s" "P s"
      "\<forall>j<i. \<not> P (as ! j)" "mutate_found P f as = as[i := f s]" by blast
    have "\<forall>j<Suc i. \<not> P ((a # as) ! j)"
      using False i(4) by (auto simp: less_Suc_eq_0_disj)
    with i False show ?thesis by (intro exI[of _ "Suc i"]) simp
  qed
qed

lemma find_None_mutate_found: "find P xs = None \<Longrightarrow> mutate_found P f xs = xs"
  by (induction xs) (auto split: if_splits)

lemma findIndex_Some:
  "findIndex P xs = Some i \<Longrightarrow> i < length xs \<and> P (xs ! i) \<and> (\<forall>j<i. \<not> P (xs ! j))"
proof (induction xs arbitrary: i)
  case Nil
  then show ?case by simp
next
  case (Cons a as)
  show ?case
  proof (cases "P a")
    case True
    with Cons.prems show ?thesis by simp
  next
    case False
    with Cons.prems obtain k where k: "findIndex P as = Some k" "i = Suc k" by auto
    from Cons.IH[OF k(1)] False k(2) show ?thesis
      by (auto simp: less_Suc_eq_0_disj)
  qed
qed

lemma findIndex_None: "findIndex P xs = None \<longleftrightarrow> (\<forall>a\<in>set xs. \<not> P a)"
  by (induction xs) auto

lemma get_prop_own: "obj k = Some v \<Longrightarrow> get_prop obj k = Own v"
  by (simp add: get_prop_def)

lemma get_prop_undefined: "obj k = None \<Longrightarrow> object_prototype k = None \<Longrightarrow> get_prop obj k = Undefined"
  by (simp add: get_prop_def)

lemma get_prop_inherit: "obj k = None \<Longrightarrow> object_prototype k = Some i \<Longrightarrow> get_prop obj k = Inherit i"
  by (simp add: get_prop_def)

lemma push_stack_own: "stacks k = Some st \<Longrightarrow> push_stack stacks k v = Inr (stacks(k \<mapsto> st @ [v]))"
  by (simp add: push_stack_def get_prop_own)

lemma push_stack_undefined:
  "stacks k = None \<Longrightarrow> object_prototype k = None \<Longrightarrow> push_stack stacks k v = Inr (stacks(k \<mapsto> [v]))"
  by (simp add: push_stack_def get_prop_undefined)

lemma push_stack_inherit:
  "stacks k = None \<Longrightarrow> object_prototype k = Some i \<Longrightarrow> push_stack stacks k v = Inl TypeError"
  by (simp add: push_stack_def get_prop_inherit)

lemma undo_loop_Nil: "undo_loop ss [] = (ss, [], [])"
  by (simp add: undo_loop.simps)

lemma undo_loop_hit:
  "find (\<lambda>st. id' st = i \<and> \<not> truthy (removed st)) ss = Some s \<Longrightarrow>
   undo_loop ss (stack @ [i]) =
     (mutate_found (\<lambda>st. id' st = i \<and> \<not> truthy (removed st)) (\<lambda>st. st\<lparr>removed := Some True\<rparr>) ss,
      stack, [Broadcast (remove_stroke_ev i) False])"
  by (subst undo_loop.simps) simp

lemma undo_loop_miss:
  "find (\<lambda>st. id' st = i \<and> \<not> truthy (removed st)) ss = None \<Longrightarrow>
   undo_loop ss (stack @ [i]) = undo_loop ss stack"
  by (subst undo_loop.simps) simp

lemma undo_own:
  "userStacks state u = Some stack \<Longrightarrow>
   undo state u =
     (case undo_loop (strokes state) stack of
        (ss', stack', outs) \<Rightarrow>
          (state\<lparr>strokes := ss', userStacks := (userStacks state)(u \<mapsto> stack')\<rparr>, outs))"
  by (simp add: undo_def get_prop_own)

text \<open>Without an own stack \<open>undo\<close> changes nothing and broadcasts nothing; it raises when
  the user id is the name of an inherited method that has parameters.\<close>

lemma undo_no_own:
  "userStacks state u = None \<Longrightarrow>
   undo state u =
     (state, if (\<exists>n. object_prototype u = Some (Method (Suc n))) then [Throw TypeError] else [])"
  by (auto simp: undo_def get_prop_def gr0_conv_Suc split: option.splits inherited.splits)

lemma emit_all:
  "emit cs room ws (Broadcast e False) =
     map (\<lambda>c. Deliver (cid c) e) (filter (\<lambda>c. readyState c = OPEN \<and> ws_room c = room) cs)"
  by (simp add: broadcast_def)

lemma emit_others:
  "emit cs room ws (Broadcast e True) =
     map (\<lambda>c. Deliver (cid c) e) (filter (\<lambda>c. readyState c = OPEN \<and> ws_room c = room \<and> cid c \<noteq> cid ws) cs)"
  by (simp add: broadcast_def)

lemma find_cid: "find (\<lambda>c. cid c = w) cs = Some ws \<Longrightarrow> cid ws = w"
  by (auto simp: find_Some_iff)

lemma getRoom_cases:
  "(rs room = Some state \<longrightarrow> getRoom rs room = (rs, Room state))
   \<and> (rs room = None \<and> object_prototype room = Some v \<longrightarrow> getRoom rs room = (rs, NotARoom v))
   \<and> (rs room = None \<and> object_prototype room = None \<longrightarrow>
        getRoom rs room = (rs(room \<mapsto> \<lparr>strokes = [], userStacks = Map.empty\<rparr>),
                           Room \<lparr>strokes = [], userStacks = Map.empty\<rparr>))"
  by (simp add: getRoom_def get_prop_def)

lemma getRoom_NotARoom:
  "snd (getRoom rs room) = NotARoom v \<Longrightarrow> fst (getRoom rs room) = rs \<and> rs room = None"
  by (auto simp: getRoom_def get_prop_def split: option.splits)

lemma on_message_handle:
  assumes "find (\<lambda>c. cid c = w) (clients srv) = Some ws"
    and "\<And>rm u. m \<noteq> JoinRoom rm u"
    and "snd (getRoom (rooms srv) (ws_room ws)) = Room state"
  shows "on_message srv w uuid m =
    Some (srv\<lparr>rooms := (fst (getRoom (rooms srv) (ws_room ws)))
                  (ws_room ws \<mapsto> fst (handle state (ws_userId ws) uuid m))\<rparr>,
          concat (map (emit (clients srv) (ws_room ws) ws) (snd (handle state (ws_userId ws) uuid m))))"
proof -
  obtain rs' where g: "getRoom (rooms srv) (ws_room ws) = (rs', Room state)"
    using assms(3) by (cases "getRoom (rooms srv) (ws_room ws)") auto
  show ?thesis
    using assms(1,2) g by (cases m) (auto simp: on_message_def Let_def case_prod_beta)
qed

lemma on_message_inherited:
  assumes "find (\<lambda>c. cid c = w) (clients srv) = Some ws"
    and "\<And>rm u. m \<noteq> JoinRoom rm u"
    and "snd (getRoom (rooms srv) (ws_room ws)) = NotARoom v"
  shows "on_message srv w uuid m =
    (case handle_inherited m of
       None \<Rightarrow> None
     | Some outs \<Rightarrow> Some (srv, concat (map (emit (clients srv) (ws_room ws) ws) outs)))"
proof -
  from getRoom_NotARoom[OF assms(3)] assms(3)
  have g: "getRoom (rooms srv) (ws_room ws) = (rooms srv, NotARoom v)"
    by (simp add: prod_eq_iff)
  show ?thesis
    using assms(1,2) g by (cases m) (auto simp: on_message_def Let_def split: option.splits)
qed

lemma getRoom_upd_same:
  "snd (getRoom rs room) = Room state \<Longrightarrow>
   snd (getRoom ((fst (getRoom rs room))(room \<mapsto> state)) r) = snd (getRoom rs r)"
  by (auto simp: getRoom_def get_prop_def split: option.splits)

lemma getRoom_upd_existing:
  "rs room \<noteq> None \<Longrightarrow> snd (getRoom rs room) = Room state \<Longrightarrow>
   (fst (getRoom rs room))(room \<mapsto> state) = rs"
  by (auto simp: getRoom_def get_prop_def split: option.splits)

section \<open>end\_stroke changes nothing and is relayed to the others\<close>

text \<open>
  C10. Handling \<open>end_stroke\<close> leaves the room state (strokes and user stacks) as it was;
  its one effect is the relay of an \<open>end_stroke\<close> event to the connections of the room
  other than the sender. On the room: the state comes back unchanged with the single
  request \<open>broadcast(room, end_stroke, ws)\<close>. On the server, whatever the sender's room
  is called: the handler completes, the clients are unchanged, what \<open>getRoom\<close> returns
  for every room name is unchanged (the registry is itself unchanged when the sender's
  room was registered already), and what the outside sees is one \<open>end_stroke\<close> event to
  each open connection of the sender's room except the sender, and no exception.
\<close>

theorem end_stroke_frame:
  assumes "find (\<lambda>c. cid c = w) (clients srv) = Some ws"
  shows "end_stroke state strokeId = (state, [Broadcast (end_stroke_ev strokeId) True])
    \<and> (\<exists>srv'. on_message srv w uuid (EndStroke rm strokeId) =
          Some (srv', map (\<lambda>c. Deliver (cid c) (end_stroke_ev strokeId))
            (filter (\<lambda>c. readyState c = OPEN \<and> ws_room c = ws_room ws \<and> cid c \<noteq> w) (clients srv)))
        \<and> clients srv' = clients srv
        \<and> (\<forall>r. snd (getRoom (rooms srv') r) = snd (getRoom (rooms srv) r))
        \<and> (rooms srv (ws_room ws) \<noteq> None \<longrightarrow> srv' = srv))"
proof -
  have w: "cid ws = w" using assms by (rule find_cid)
  let ?ds = "map (\<lambda>c. Deliver (cid c) (end_stroke_ev strokeId))
            (filter (\<lambda>c. readyState c = OPEN \<and> ws_room c = ws_room ws \<and> cid c \<noteq> w) (clients srv))"
  have e: "emit (clients srv) (ws_room ws) ws (Broadcast (end_stroke_ev strokeId) True) = ?ds"
    by (simp only: emit_others w)
  have "\<exists>srv'. on_message srv w uuid (EndStroke rm strokeId) = Some (srv', ?ds)
        \<and> clients srv' = clients srv
        \<and> (\<forall>r. snd (getRoom (rooms srv') r) = snd (getRoom (rooms srv) r))
        \<and> (rooms srv (ws_room ws) \<noteq> None \<longrightarrow> srv' = srv)"
  proof (cases "snd (getRoom (rooms srv) (ws_room ws))")
    case (Room st)
    let ?srv' = "srv\<lparr>rooms := (fst (getRoom (rooms srv) (ws_room ws)))(ws_room ws \<mapsto> st)\<rparr>"
    have "on_message srv w uuid (EndStroke rm strokeId) = Some (?srv', ?ds)"
      using e by (simp add: on_message_handle[OF assms _ Room] end_stroke_def del: emit.simps)
    moreover have "\<forall>r. snd (getRoom (rooms ?srv') r) = snd (getRoom (rooms srv) r)"
      by (simp add: getRoom_upd_same[OF Room])
    moreover have "rooms srv (ws_room ws) \<noteq> None \<longrightarrow> ?srv' = srv"
      by (simp add: getRoom_upd_existing[OF _ Room])
    ultimately show ?thesis by (intro exI[of _ ?srv']) simp
  next
    case (NotARoom v)
    have "on_message srv w uuid (EndStroke rm strokeId) = Some (srv, ?ds)"
      using e by (simp add: on_message_inherited[OF assms _ NotARoom] del: emit.simps)
    then show ?thesis by (intro exI[of _ srv]) simp
  qed
  then show ?thesis by (simp add: end_stroke_def)
qed

theorem end_stroke_frame_witness:
  "on_message server_ABC 1 ''x'' (EndStroke ''r'' ''a'') = Some (server_ABC, [Deliver 2 (end_stroke_ev ''a'')])"
proof -
  have f: "find (\<lambda>c. cid c = 1) (clients server_ABC) = Some conn1"
    by (simp add: server_ABC_def conn1_def)
  have r: "rooms server_ABC (ws_room conn1) \<noteq> None"
    by (simp add: server_ABC_def conn1_def)
  from end_stroke_frame[OF f, of room_ABC "''a''" "''x''" "''r''"] r
  obtain srv' where "on_message server_ABC 1 ''x'' (EndStroke ''r'' ''a'') =
      Some (srv', map (\<lambda>c. Deliver (cid c) (end_stroke_ev ''a''))
            (filter (\<lambda>c. readyState c = OPEN \<and> ws_room c = ws_room conn1 \<and> cid c \<noteq> 1) (clients server_ABC)))"
    and "srv' = server_ABC"
    by blast
  then show ?thesis
    by (simp add: server_ABC_def conn1_def conn2_def conn3_def conn4_def)
qed

section \<open>add\_points on a missing or tombstoned stroke\<close>

text \<open>In a room whose name is an inherited property name and that \<open>getRoom\<close> therefore
  does not register, there is no room state, and \<open>add_points\<close> raises.\<close>

lemma add_points_without_room_state:
  assumes "find (\<lambda>c. cid c = w) (clients srv) = Some ws"
    and "snd (getRoom (rooms srv) (ws_room ws)) = NotARoom v"
  shows "on_message srv w uuid (AddPoints rm strokeId pts) = Some (srv, [Uncaught TypeError])"
  by (simp add: on_message_inherited[OF assms(1) _ assms(2)])

text \<open>
  C7. When every stroke of the room state that carries the message's \<open>strokeId\<close> is
  tombstoned (in particular when no stroke carries it), \<open>add_points\<close> is a silent no-op:
  the room state comes back unchanged, no broadcast is requested and no exception is
  raised. On a server where that state is the state of the sender's room, the handler
  completes, nothing is delivered to any connection and nothing is raised, the clients are
  unchanged and what \<open>getRoom\<close> returns for every room name is unchanged (the registry
  itself is unchanged when the sender's room was registered already).
\<close>

theorem add_points_reference_miss:
  assumes "\<forall>s\<in>set (strokes state). id' s = strokeId \<longrightarrow> truthy (removed s)"
  shows "add_points state strokeId pts = (state, [])
    \<and> (\<forall>srv w ws uuid rm.
          find (\<lambda>c. cid c = w) (clients srv) = Some ws
          \<and> snd (getRoom (rooms srv) (ws_room ws)) = Room state \<longrightarrow>
          (\<exists>srv'. on_message srv w uuid (AddPoints rm strokeId pts) = Some (srv', [])
             \<and> clients srv' = clients srv
             \<and> (\<forall>r. snd (getRoom (rooms srv') r) = snd (getRoom (rooms srv) r))
             \<and> (rooms srv (ws_room ws) \<noteq> None \<longrightarrow> srv' = srv)))"
proof -
  have "find (\<lambda>st. id' st = strokeId \<and> \<not> truthy (removed st)) (strokes state) = None"
    using assms by (auto simp: find_None_iff)
  then have a: "add_points state strokeId pts = (state, [])"
    by (simp add: add_points_def)
  have "\<exists>srv'. on_message srv w uuid (AddPoints rm strokeId pts) = Some (srv', [])
             \<and> clients srv' = clients srv
             \<and> (\<forall>r. snd (getRoom (rooms srv') r) = snd (getRoom (rooms srv) r))
             \<and> (rooms srv (ws_room ws) \<noteq> None \<longrightarrow> srv' = srv)"
    if f: "find (\<lambda>c. cid c = w) (clients srv) = Some ws"
      and g: "snd (getRoom (rooms srv) (ws_room ws)) = Room state"
    for srv w ws uuid rm
  proof -
    let ?srv' = "srv\<lparr>rooms := (fst (getRoom (rooms srv) (ws_room ws)))(ws_room ws \<mapsto> state)\<rparr>"
    have "on_message srv w uuid (AddPoints rm strokeId pts) = Some (?srv', [])"
      using a by (simp add: on_message_handle[OF f _ g])
    moreover have "\<forall>r. snd (getRoom (rooms ?srv') r) = snd (getRoom (rooms srv) r)"
      by (simp add: getRoom_upd_same[OF g])
    moreover have "rooms srv (ws_room ws) \<noteq> None \<longrightarrow> ?srv' = srv"
      by (simp add: getRoom_upd_existing[OF _ g])
    ultimately show ?thesis by (intro exI[of _ ?srv']) simp
  qed
  with a show ?thesis by blast
qed

theorem add_points_reference_miss_witness:
  "on_message server_undone 1 ''x'' (AddPoints ''r'' ''b'' [p0, p1]) = Some (server_undone, [])
   \<and> on_message server_undone 1 ''x'' (AddPoints ''r'' ''nope'' [p0, p1]) = Some (server_undone, [])"
proof -
  have f: "find (\<lambda>c. cid c = 1) (clients server_undone) = Some conn1"
    by (simp add: server_undone_def conn1_def)
  have s: "snd (getRoom (rooms server_undone) (ws_room conn1)) = Room room_undone"
    by (simp add: server_undone_def conn1_def getRoom_def get_prop_def)
  have r: "rooms server_undone (ws_room conn1) \<noteq> None"
    by (simp add: server_undone_def conn1_def)
  have b: "\<forall>s\<in>set (strokes room_undone). id' s = ''b'' \<longrightarrow> truthy (removed s)"
    by (simp add: room_undone_def stroke_A_def stroke_B_def stroke_C_def truthy_def)
  have n: "\<forall>s\<in>set (strokes room_undone). id' s = ''nope'' \<longrightarrow> truthy (removed s)"
    by (simp add: room_undone_def stroke_A_def stroke_B_def stroke_C_def truthy_def)
  from add_points_reference_miss[OF b, of "[p0, p1]"] f s r
  have 1: "on_message server_undone 1 ''x'' (AddPoints ''r'' ''b'' [p0, p1]) = Some (server_undone, [])"
    by blast
  from add_points_reference_miss[OF n, of "[p0, p1]"] f s r
  have 2: "on_message server_undone 1 ''x'' (AddPoints ''r'' ''nope'' [p0, p1]) = Some (server_undone, [])"
    by blast
  from 1 2 show ?thesis by simp
qed

section \<open>Facts about a room without strokes\<close>

lemma room_state_all_upd:
  "(state::room_state)\<lparr>strokes := a, userStacks := b\<rparr> = \<lparr>strokes = a, userStacks = b\<rparr>"
  by (cases state) simp

lemma redo_no_candidate:
  "\<forall>s\<in>set (strokes state). \<not> (userId s = u \<and> truthy (removed s)) \<Longrightarrow> redo state u = (state, [])"
proof -
  assume "\<forall>s\<in>set (strokes state). \<not> (userId s = u \<and> truthy (removed s))"
  then have "findIndex (\<lambda>st. userId st = u \<and> truthy (removed st)) (rev (strokes state)) = None"
    by (simp add: findIndex_None)
  then show ?thesis by (simp add: redo_def)
qed

lemma handle_empty_no_begin:
  "\<not> is_begin_stroke m \<Longrightarrow>
   fst (handle \<lparr>strokes = [], userStacks = Map.empty\<rparr> uid uuid m) = \<lparr>strokes = [], userStacks = Map.empty\<rparr>"
  by (cases m) (simp_all add: add_points_def end_stroke_def undo_no_own redo_no_candidate clear_def cursor_def)

lemma run_empty_no_begin:
  "\<forall>x\<in>set ms. \<not> is_begin_stroke (snd (snd x)) \<Longrightarrow>
   fst (run \<lparr>strokes = [], userStacks = Map.empty\<rparr> ms) = \<lparr>strokes = [], userStacks = Map.empty\<rparr>"
proof (induction ms)
  case Nil
  then show ?case by simp
next
  case (Cons x ms)
  obtain uid uuid m where x: "x = (uid, uuid, m)" by (cases x) auto
  from Cons.prems x have "\<not> is_begin_stroke m" by simp
  from handle_empty_no_begin[OF this] Cons x show ?case
    by (simp add: case_prod_beta)
qed

section \<open>clear empties the room\<close>

text \<open>
  What \<open>clear\<close> does, and what follows it as long as no stroke is begun: \<open>clear\<close>
  replaces the strokes by the empty sequence and the user stacks by the empty mapping and
  requests \<open>broadcast(room, clear)\<close> with no exception; every sequence of messages
  without a \<open>begin_stroke\<close> leaves the room empty; in the empty room every \<open>redo\<close> changes
  nothing and broadcasts nothing, and every \<open>undo\<close> changes nothing and broadcasts
  nothing, but raises when the user id names an inherited method that has parameters.
\<close>

lemma clear_then_no_stroke:
  "clear state = (\<lparr>strokes = [], userStacks = Map.empty\<rparr>, [Broadcast clear_ev False])
   \<and> (\<forall>ms. (\<forall>x\<in>set ms. \<not> is_begin_stroke (snd (snd x))) \<longrightarrow>
         fst (run (fst (clear state)) ms) = \<lparr>strokes = [], userStacks = Map.empty\<rparr>)
   \<and> (\<forall>u. redo (fst (clear state)) u = (fst (clear state), []))
   \<and> (\<forall>u. undo (fst (clear state)) u =
         (fst (clear state),
          if (\<exists>n. object_prototype u = Some (Method (Suc n))) then [Throw TypeError] else []))"
  by (simp add: clear_def room_state_all_upd run_empty_no_begin redo_no_candidate undo_no_own)

text \<open>
  C6 does not hold of the code for every user: after \<open>clear\<close>, an \<open>undo\<close> whose \<open>userId\<close>
  is \<open>constructor\<close> finds the inherited function \<open>Object\<close> under that key, takes it as the
  stack, and \<open>stack.pop()\<close> raises an exception that nothing catches, where an \<open>undo\<close> by
  a user without a stack is meant to do nothing (the fallback \<open>|| []\<close>). Here room \<open>r\<close> is
  cleared by connection 1 and the \<open>undo\<close> follows.
\<close>

theorem clear_then_undo_raises:
  "on_message server_undone 1 ''x'' (Clear ''r'') =
     Some (server_cleared, [Deliver 1 clear_ev, Deliver 2 clear_ev])
   \<and> on_message server_cleared 1 ''y'' (Undo ''r'' ''constructor'') =
     Some (server_cleared, [Uncaught TypeError])
   \<and> on_message server_cleared 1 ''y'' (Undo ''r'' ''nobody'') = Some (server_cleared, [])"
proof -
  have f: "find (\<lambda>c. cid c = 1) (clients server_undone) = Some conn1"
    by (simp add: server_undone_def conn1_def)
  have g: "snd (getRoom (rooms server_undone) (ws_room conn1)) = Room room_undone"
    by (simp add: server_undone_def conn1_def getRoom_def get_prop_def)
  have "on_message server_undone 1 ''x'' (Clear ''r'') =
      Some (server_undone\<lparr>rooms := (fst (getRoom (rooms server_undone) (ws_room conn1)))
                (ws_room conn1 \<mapsto> fst (handle room_undone (ws_userId conn1) ''x'' (Clear ''r'')))\<rparr>,
            concat (map (emit (clients server_undone) (ws_room conn1) conn1)
              (snd (handle room_undone (ws_userId conn1) ''x'' (Clear ''r'')))))"
    by (rule on_message_handle[OF f _ g]) simp
  then have 1: "on_message server_undone 1 ''x'' (Clear ''r'') =
     Some (server_cleared, [Deliver 1 clear_ev, Deliver 2 clear_ev])"
    by (simp add: clear_def room_state_all_upd broadcast_def server_undone_def server_cleared_def
        conn1_def conn2_def conn3_def conn4_def getRoom_def get_prop_def)
  have f': "find (\<lambda>c. cid c = 1) (clients server_cleared) = Some conn1"
    by (simp add: server_cleared_def conn1_def)
  have g': "snd (getRoom (rooms server_cleared) (ws_room conn1)) = Room \<lparr>strokes = [], userStacks = Map.empty\<rparr>"
    by (simp add: server_cleared_def conn1_def getRoom_def get_prop_def)
  have c: "object_prototype ''constructor'' = Some (Method (Suc 0))"
    by (simp add: object_prototype_def)
  have n: "object_prototype ''nobody'' = None"
    by (simp add: object_prototype_def)
  have h: "on_message server_cleared 1 ''y'' (Undo ''r'' u) =
      Some (server_cleared\<lparr>rooms := (fst (getRoom (rooms server_cleared) (ws_room conn1)))
                (ws_room conn1 \<mapsto> fst (handle \<lparr>strokes = [], userStacks = Map.empty\<rparr> (ws_userId conn1) ''y'' (Undo ''r'' u)))\<rparr>,
            concat (map (emit (clients server_cleared) (ws_room conn1) conn1)
              (snd (handle \<lparr>strokes = [], userStacks = Map.empty\<rparr> (ws_userId conn1) ''y'' (Undo ''r'' u)))))" for u
    by (rule on_message_handle[OF f' _ g']) simp
  have k: "server_cleared\<lparr>rooms := (fst (getRoom (rooms server_cleared) (ws_room conn1)))
                (ws_room conn1 \<mapsto> \<lparr>strokes = [], userStacks = Map.empty\<rparr>)\<rparr> = server_cleared"
    by (simp add: getRoom_def get_prop_def conn1_def server_cleared_def)
  have 2: "on_message server_cleared 1 ''y'' (Undo ''r'' ''constructor'') =
     Some (server_cleared, [Uncaught TypeError])"
    unfolding h using c k by (simp add: undo_no_own)
  have 3: "on_message server_cleared 1 ''y'' (Undo ''r'' ''nobody'') = Some (server_cleared, [])"
    unfolding h using n k by (simp add: undo_no_own)
  from 1 2 3 show ?thesis by simp
qed

section \<open>add\_points truncates a batch to 200 points\<close>

text \<open>
  C4. When \<open>find\<close> returns a stroke \<open>s\<close> for the message's \<open>strokeId\<close> (a stroke with that
  id that is not tombstoned), \<open>add_points\<close> appends the first 200 points of the batch to
  that stroke and to no other, and requests the broadcast of those same points with the
  sender excepted. The truncated batch never has more than 200 points; of a batch of 250
  it is the first 200, and the last 50 appear nowhere. On the server the handler
  completes, what the outside sees is one \<open>add_points\<close> event with the truncated batch to
  each open connection of the sender's room other than the sender, and the sender's room
  holds the updated state.
\<close>

theorem add_points_truncates:
  assumes "find (\<lambda>c. cid c = w) (clients srv) = Some ws"
    and "snd (getRoom (rooms srv) (ws_room ws)) = Room state"
    and "find (\<lambda>st. id' st = strokeId \<and> \<not> truthy (removed st)) (strokes state) = Some s"
  shows "(\<exists>i<length (strokes state). strokes state ! i = s \<and>
            add_points state strokeId pts =
              (state\<lparr>strokes := (strokes state)[i := s\<lparr>points := points s @ take 200 pts\<rparr>]\<rparr>,
               [Broadcast (add_points_ev strokeId (take 200 pts)) True]))
    \<and> length (take 200 pts) \<le> 200
    \<and> (length pts = 250 \<longrightarrow>
          length (take 200 pts) = 200 \<and> pts = take 200 pts @ drop 200 pts \<and> length (drop 200 pts) = 50)
    \<and> (\<exists>srv'. on_message srv w uuid (AddPoints rm strokeId pts) =
          Some (srv', map (\<lambda>c. Deliver (cid c) (add_points_ev strokeId (take 200 pts)))
            (filter (\<lambda>c. readyState c = OPEN \<and> ws_room c = ws_room ws \<and> cid c \<noteq> w) (clients srv)))
        \<and> rooms srv' (ws_room ws) = Some (fst (add_points state strokeId pts)))"
proof -
  let ?live = "\<lambda>st. id' st = strokeId \<and> \<not> truthy (removed st)"
  let ?app = "\<lambda>st. st\<lparr>points := points st @ take 200 pts\<rparr>"
  from find_mutate_found[OF assms(3), of ?app]
  obtain i where i: "i < length (strokes state)" "strokes state ! i = s" "id' s = strokeId"
    "mutate_found ?live ?app (strokes state) = (strokes state)[i := ?app s]"
    by blast
  have a: "add_points state strokeId pts =
      (state\<lparr>strokes := (strokes state)[i := s\<lparr>points := points s @ take 200 pts\<rparr>]\<rparr>,
       [Broadcast (add_points_ev strokeId (take 200 pts)) True])"
    using assms(3) i(3,4) by (simp add: add_points_def Let_def)
  have w: "cid ws = w" using assms(1) by (rule find_cid)
  have m: "on_message srv w uuid (AddPoints rm strokeId pts) =
      Some (srv\<lparr>rooms := (fst (getRoom (rooms srv) (ws_room ws)))
              (ws_room ws \<mapsto> fst (add_points state strokeId pts))\<rparr>,
       emit (clients srv) (ws_room ws) ws (Broadcast (add_points_ev strokeId (take 200 pts)) True))"
    using a by (simp add: on_message_handle[OF assms(1) _ assms(2)])
  have 1: "\<exists>i<length (strokes state). strokes state ! i = s \<and>
            add_points state strokeId pts =
              (state\<lparr>strokes := (strokes state)[i := s\<lparr>points := points s @ take 200 pts\<rparr>]\<rparr>,
               [Broadcast (add_points_ev strokeId (take 200 pts)) True])"
    using i(1,2) a by blast
  have 2: "length (take 200 pts) \<le> 200" by simp
  have 3: "length pts = 250 \<longrightarrow>
          length (take 200 pts) = 200 \<and> pts = take 200 pts @ drop 200 pts \<and> length (drop 200 pts) = 50"
    by simp
  have 4: "\<exists>srv'. on_message srv w uuid (AddPoints rm strokeId pts) =
          Some (srv', map (\<lambda>c. Deliver (cid c) (add_points_ev strokeId (take 200 pts)))
            (filter (\<lambda>c. readyState c = OPEN \<and> ws_room c = ws_room ws \<and> cid c \<noteq> w) (clients srv)))
        \<and> rooms srv' (ws_room ws) = Some (fst (add_points state strokeId pts))"
    unfolding m by (simp add: emit_others w del: emit.simps)
  from 1 2 3 4 show ?thesis by blast
qed

lemma take200_batch250: "take 200 batch250 = replicate 120 p0 @ replicate 80 p1"
  by (simp add: batch250_def)

theorem add_points_truncates_witness:
  "strokes (fst (add_points room_ABC ''b'' batch250))
     = [stroke_A, stroke_B\<lparr>points := [p1] @ replicate 120 p0 @ replicate 80 p1\<rparr>, stroke_C]
   \<and> (\<exists>srv'. on_message server_ABC 1 ''x'' (AddPoints ''r'' ''b'' batch250)
     = Some (srv', [Deliver 2 (add_points_ev ''b'' (replicate 120 p0 @ replicate 80 p1))]))"
proof -
  have f: "find (\<lambda>c. cid c = 1) (clients server_ABC) = Some conn1"
    by (simp add: server_ABC_def conn1_def)
  have s: "snd (getRoom (rooms server_ABC) (ws_room conn1)) = Room room_ABC"
    by (simp add: server_ABC_def conn1_def getRoom_def get_prop_def)
  have b: "find (\<lambda>st. id' st = ''b'' \<and> \<not> truthy (removed st)) (strokes room_ABC) = Some stroke_B"
    by (simp add: room_ABC_def stroke_A_def stroke_B_def stroke_C_def truthy_def)
  note t = add_points_truncates[OF f s b, of batch250 "''x''" "''r''"]
  from t obtain i where i: "i < length (strokes room_ABC)" "strokes room_ABC ! i = stroke_B"
    "add_points room_ABC ''b'' batch250 =
       (room_ABC\<lparr>strokes := (strokes room_ABC)[i := stroke_B\<lparr>points := points stroke_B @ take 200 batch250\<rparr>]\<rparr>,
        [Broadcast (add_points_ev ''b'' (take 200 batch250)) True])"
    by blast
  have "i = 1"
  proof -
    from i(1) have "i = 0 \<or> i = 1 \<or> i = 2" by (auto simp: room_ABC_def)
    with i(2) show ?thesis
      by (auto simp: room_ABC_def stroke_A_def stroke_B_def stroke_C_def)
  qed
  with i(3) have 1: "strokes (fst (add_points room_ABC ''b'' batch250))
     = [stroke_A, stroke_B\<lparr>points := [p1] @ replicate 120 p0 @ replicate 80 p1\<rparr>, stroke_C]"
    by (simp add: room_ABC_def take200_batch250 stroke_B_def)
  from t obtain srv' where "on_message server_ABC 1 ''x'' (AddPoints ''r'' ''b'' batch250)
        = Some (srv', map (\<lambda>c. Deliver (cid c) (add_points_ev ''b'' (take 200 batch250)))
            (filter (\<lambda>c. readyState c = OPEN \<and> ws_room c = ws_room conn1 \<and> cid c \<noteq> 1) (clients server_ABC)))"
    by blast
  then have "on_message server_ABC 1 ''x'' (AddPoints ''r'' ''b'' batch250)
     = Some (srv', [Deliver 2 (add_points_ev ''b'' (replicate 120 p0 @ replicate 80 p1))])"
    by (simp add: take200_batch250 server_ABC_def conn1_def conn2_def conn3_def conn4_def)
  then have 2: "\<exists>srv'. on_message server_ABC 1 ''x'' (AddPoints ''r'' ''b'' batch250)
     = Some (srv', [Deliver 2 (add_points_ev ''b'' (replicate 120 p0 @ replicate 80 p1))])"
    by blast
  from 1 2 show ?thesis by simp
qed

section \<open>Facts about the undo loop and the redo scan\<close>

lemma undo_loop_all_miss:
  "\<forall>j\<in>set stale. find (\<lambda>st. id' st = j \<and> \<not> truthy (removed st)) ss = None \<Longrightarrow>
   undo_loop ss (stack @ stale) = undo_loop ss stack"
proof (induction stale rule: rev_induct)
  case Nil
  then show ?case by simp
next
  case (snoc j stale)
  then have "find (\<lambda>st. id' st = j \<and> \<not> truthy (removed st)) ss = None" by simp
  then have "undo_loop ss ((stack @ stale) @ [j]) = undo_loop ss (stack @ stale)"
    by (rule undo_loop_miss)
  with snoc show ?case by simp
qed

lemma undo_loop_exhausted:
  "\<forall>j\<in>set stale. find (\<lambda>st. id' st = j \<and> \<not> truthy (removed st)) ss = None \<Longrightarrow>
   undo_loop ss stale = (ss, [], [])"
  using undo_loop_all_miss[of stale ss "[]"] by (simp add: undo_loop_Nil)

lemma undo_loop_pops_to_hit:
  assumes "\<forall>j\<in>set stale. find (\<lambda>st. id' st = j \<and> \<not> truthy (removed st)) ss = None"
    and "find (\<lambda>st. id' st = i \<and> \<not> truthy (removed st)) ss = Some s"
  shows "\<exists>k<length ss. ss ! k = s \<and>
     undo_loop ss (pre @ i # stale) =
       (ss[k := s\<lparr>removed := Some True\<rparr>], pre, [Broadcast (remove_stroke_ev i) False])"
proof -
  have "undo_loop ss (pre @ i # stale) = undo_loop ss ((pre @ [i]) @ stale)" by simp
  also have "\<dots> = undo_loop ss (pre @ [i])"
    using assms(1) by (rule undo_loop_all_miss)
  also have "\<dots> = (mutate_found (\<lambda>st. id' st = i \<and> \<not> truthy (removed st))
        (\<lambda>st. st\<lparr>removed := Some True\<rparr>) ss, pre, [Broadcast (remove_stroke_ev i) False])"
    using assms(2) by (rule undo_loop_hit)
  finally have u: "undo_loop ss (pre @ i # stale) =
      (mutate_found (\<lambda>st. id' st = i \<and> \<not> truthy (removed st))
        (\<lambda>st. st\<lparr>removed := Some True\<rparr>) ss, pre, [Broadcast (remove_stroke_ev i) False])" .
  from find_mutate_found[OF assms(2), of "\<lambda>st. st\<lparr>removed := Some True\<rparr>"]
  obtain k where "k < length ss" "ss ! k = s"
    "mutate_found (\<lambda>st. id' st = i \<and> \<not> truthy (removed st)) (\<lambda>st. st\<lparr>removed := Some True\<rparr>) ss
       = ss[k := s\<lparr>removed := Some True\<rparr>]"
    by blast
  with u show ?thesis by auto
qed
lemma find_live_unique:
  assumes "distinct (map id' (xs @ s # ys))" and "\<not> truthy (removed s)"
  shows "find (\<lambda>st. id' st = id' s \<and> \<not> truthy (removed st)) (xs @ s # ys) = Some s"
  using assms by (induction xs) auto

lemma mutate_found_unique:
  assumes "distinct (map id' (xs @ s # ys))" and "\<not> truthy (removed s)"
  shows "mutate_found (\<lambda>st. id' st = id' s \<and> \<not> truthy (removed st)) f (xs @ s # ys) = xs @ f s # ys"
  using assms by (induction xs) auto

lemma undo_top_live:
  assumes "strokes state = xs @ s # ys"
    and "distinct (map id' (strokes state))"
    and "\<not> truthy (removed s)"
    and "userStacks state u = Some (st @ [id' s])"
  shows "undo state u =
     (state\<lparr>strokes := xs @ s\<lparr>removed := Some True\<rparr> # ys, userStacks := (userStacks state)(u \<mapsto> st)\<rparr>,
      [Broadcast (remove_stroke_ev (id' s)) False])"
proof -
  have d: "distinct (map id' (xs @ s # ys))" using assms(1,2) by simp
  have "undo_loop (strokes state) (st @ [id' s]) =
      (mutate_found (\<lambda>st. id' st = id' s \<and> \<not> truthy (removed st)) (\<lambda>st. st\<lparr>removed := Some True\<rparr>) (strokes state),
       st, [Broadcast (remove_stroke_ev (id' s)) False])"
    using find_live_unique[OF d assms(3)] by (intro undo_loop_hit) (simp add: assms(1))
  also have "mutate_found (\<lambda>st. id' st = id' s \<and> \<not> truthy (removed st)) (\<lambda>st. st\<lparr>removed := Some True\<rparr>) (strokes state)
      = xs @ s\<lparr>removed := Some True\<rparr> # ys"
    using mutate_found_unique[OF d assms(3)] by (simp add: assms(1))
  finally show ?thesis using assms(4) by (simp add: undo_own)
qed

lemma findIndex_first:
  "\<forall>a\<in>set xs. \<not> P a \<Longrightarrow> P b \<Longrightarrow> findIndex P (xs @ b # zs) = Some (length xs)"
  by (induction xs) auto

lemma redo_last_tombstoned:
  assumes "strokes state = xs @ s # ys"
    and "userId s = u" and "truthy (removed s)"
    and "\<forall>a\<in>set ys. \<not> (userId a = u \<and> truthy (removed a))"
  shows "redo state u =
     (case push_stack (userStacks state) u (id' s) of
        Inl e \<Rightarrow> (state\<lparr>strokes := xs @ s\<lparr>removed := Some False\<rparr> # ys\<rparr>, [Throw e])
      | Inr stacks \<Rightarrow>
          (state\<lparr>strokes := xs @ s\<lparr>removed := Some False\<rparr> # ys, userStacks := stacks\<rparr>,
           [Broadcast (restore_stroke_ev (s\<lparr>removed := Some False\<rparr>)) False]))"
proof -
  let ?P = "\<lambda>st. userId st = u \<and> truthy (removed st)"
  have r: "rev (strokes state) = rev ys @ s # rev xs" by (simp add: assms(1))
  have i: "findIndex ?P (rev (strokes state)) = Some (length (rev ys))"
    unfolding r using assms(2,3,4) by (intro findIndex_first) auto
  have n: "rev (strokes state) ! length (rev ys) = s"
    unfolding r by (simp only: nth_append_length)
  have "(rev (strokes state))[length (rev ys) := s\<lparr>removed := Some False\<rparr>]
      = rev ys @ s\<lparr>removed := Some False\<rparr> # rev xs"
    unfolding r by (simp only: list_update_length)
  then have l: "rev ((rev (strokes state))[length (rev ys) := s\<lparr>removed := Some False\<rparr>])
      = xs @ s\<lparr>removed := Some False\<rparr> # ys"
    by simp
  show ?thesis
    unfolding redo_def i using n l by (simp add: Let_def split: sum.splits)
qed

lemma redo_last_tombstoned_own:
  assumes "strokes state = xs @ s # ys"
    and "userId s = u" and "truthy (removed s)"
    and "\<forall>a\<in>set ys. \<not> (userId a = u \<and> truthy (removed a))"
    and "userStacks state u = Some old"
  shows "redo state u =
     (state\<lparr>strokes := xs @ s\<lparr>removed := Some False\<rparr> # ys,
            userStacks := (userStacks state)(u \<mapsto> old @ [id' s])\<rparr>,
      [Broadcast (restore_stroke_ev (s\<lparr>removed := Some False\<rparr>)) False])"
  using redo_last_tombstoned[OF assms(1-4)] assms(5) by (simp add: push_stack_own)

lemma find_first_match:
  "\<forall>a\<in>set xs. \<not> P a \<Longrightarrow> P s \<Longrightarrow> find P (xs @ s # ys) = Some s"
  by (induction xs) auto

lemma mutate_found_first_match:
  "\<forall>a\<in>set xs. \<not> P a \<Longrightarrow> P s \<Longrightarrow> mutate_found P f (xs @ s # ys) = xs @ f s # ys"
  by (induction xs) auto

lemma undo_first_removable:
  assumes "strokes state = xs @ s # ys"
    and "\<forall>a\<in>set xs. \<not> (id' a = i \<and> \<not> truthy (removed a))"
    and "id' s = i \<and> \<not> truthy (removed s)"
    and "userStacks state u = Some (pre @ i # stale)"
    and "\<forall>j\<in>set stale. find (\<lambda>st. id' st = j \<and> \<not> truthy (removed st)) (strokes state) = None"
  shows "undo state u =
     (state\<lparr>strokes := xs @ s\<lparr>removed := Some True\<rparr> # ys, userStacks := (userStacks state)(u \<mapsto> pre)\<rparr>,
      [Broadcast (remove_stroke_ev i) False])"
proof -
  let ?P = "\<lambda>st. id' st = i \<and> \<not> truthy (removed st)"
  have f: "find ?P (strokes state) = Some s"
    unfolding assms(1) using assms(2,3) by (intro find_first_match) auto
  have m: "mutate_found ?P (\<lambda>st. st\<lparr>removed := Some True\<rparr>) (strokes state)
      = xs @ s\<lparr>removed := Some True\<rparr> # ys"
    unfolding assms(1) using assms(2,3) by (intro mutate_found_first_match) auto
  have "undo_loop (strokes state) (pre @ i # stale) = undo_loop (strokes state) ((pre @ [i]) @ stale)"
    by simp
  also have "\<dots> = undo_loop (strokes state) (pre @ [i])"
    using assms(5) by (rule undo_loop_all_miss)
  also have "\<dots> = (mutate_found ?P (\<lambda>st. st\<lparr>removed := Some True\<rparr>) (strokes state), pre,
      [Broadcast (remove_stroke_ev i) False])"
    using f by (rule undo_loop_hit)
  finally show ?thesis using assms(4) m by (simp add: undo_own)
qed

section \<open>Every handler keeps the stack invariant\<close>

lemma find_split:
  "find P xs = Some s \<Longrightarrow> \<exists>ys zs. xs = ys @ s # zs \<and> (\<forall>a\<in>set ys. \<not> P a) \<and> P s"
proof (induction xs)
  case Nil
  then show ?case by simp
next
  case (Cons a as)
  show ?case
  proof (cases "P a")
    case True
    with Cons.prems have "a = s" by simp
    with True have "a # as = [] @ s # as \<and> (\<forall>a\<in>set []. \<not> P a) \<and> P s" by simp
    then show ?thesis by blast
  next
    case False
    with Cons.prems have "find P as = Some s" by simp
    from Cons.IH[OF this] obtain ys zs where "as = ys @ s # zs" "\<forall>a\<in>set ys. \<not> P a" "P s" by blast
    with False have "a # as = (a # ys) @ s # zs \<and> (\<forall>b\<in>set (a # ys). \<not> P b) \<and> P s" by simp
    then show ?thesis by blast
  qed
qed

lemma findIndex_split:
  assumes "findIndex P xs = Some i"
  shows "\<exists>ys zs. xs = ys @ (xs ! i) # zs \<and> length ys = i \<and> (\<forall>a\<in>set ys. \<not> P a) \<and> P (xs ! i)"
proof -
  from findIndex_Some[OF assms] have i: "i < length xs" "P (xs ! i)" "\<forall>j<i. \<not> P (xs ! j)" by auto
  have 1: "xs = take i xs @ (xs ! i) # drop (Suc i) xs"
    using i(1) by (simp add: id_take_nth_drop)
  have 2: "\<forall>a\<in>set (take i xs). \<not> P a"
  proof
    fix a assume "a \<in> set (take i xs)"
    then obtain j where "j < length (take i xs)" "take i xs ! j = a"
      by (auto simp: in_set_conv_nth)
    with i(1,3) show "\<not> P a" by auto
  qed
  have 3: "length (take i xs) = i" using i(1) by simp
  from 1 2 3 i(2) show ?thesis by blast
qed

lemma live_ids_append: "live_ids (xs @ ys) u = live_ids xs u @ live_ids ys u"
  by (simp add: live_ids_def)

lemma live_ids_Cons:
  "live_ids (s # ys) u = (if userId s = u \<and> \<not> truthy (removed s) then id' s # live_ids ys u else live_ids ys u)"
  by (simp add: live_ids_def)

lemma live_ids_Nil: "live_ids [] u = []"
  by (simp add: live_ids_def)

lemma live_ids_subset: "set (live_ids ss u) \<subseteq> id' ` set ss"
  by (auto simp: live_ids_def)

lemma live_ids_mem:
  "i \<in> set (live_ids ss u) \<longleftrightarrow> (\<exists>s\<in>set ss. id' s = i \<and> userId s = u \<and> \<not> truthy (removed s))"
  by (auto simp: live_ids_def)

lemma room_inv_stack:
  "room_inv state \<Longrightarrow> userStacks state u = Some st \<Longrightarrow>
     distinct st \<and> set st = set (live_ids (strokes state) u)"
  by (auto simp: room_inv_def split: option.splits dest: spec[of _ u])

lemma room_inv_no_stack:
  "room_inv state \<Longrightarrow> userStacks state u = None \<Longrightarrow> object_prototype u = None \<Longrightarrow>
     live_ids (strokes state) u = []"
  by (auto simp: room_inv_def split: option.splits dest: spec[of _ u])

lemma room_inv_distinct: "room_inv state \<Longrightarrow> distinct (map id' (strokes state))"
  by (simp add: room_inv_def)

lemma room_inv_created: "room_inv \<lparr>strokes = [], userStacks = Map.empty\<rparr>"
  by (simp add: room_inv_def live_ids_def)

lemma room_invI:
  assumes "distinct (map id' (strokes state))"
    and "\<And>u. userStacks state u = None \<Longrightarrow> object_prototype u = None \<Longrightarrow>
           live_ids (strokes state) u = []"
    and "\<And>u st. userStacks state u = Some st \<Longrightarrow> distinct st \<and> set st = set (live_ids (strokes state) u)"
  shows "room_inv state"
  using assms by (auto simp: room_inv_def split: option.splits)

lemma same_id_same_stroke:
  assumes "distinct (map id' ss)" and "a \<in> set ss" and "b \<in> set ss" and "id' a = id' b"
  shows "a = b"
  using assms by (meson distinct_map inj_onD)

text \<open>A step that makes one more stroke of user \<open>u\<close> live, with id \<open>i\<close>, and then pushes
  \<open>i\<close> on the stack of \<open>u\<close> keeps the invariant, whether or not the push raises.\<close>

lemma room_inv_after_push:
  assumes inv: "room_inv state"
    and d: "distinct (map id' ss')"
    and lu: "set (live_ids ss' u) = insert i (set (live_ids (strokes state) u))"
    and fresh: "i \<notin> set (live_ids (strokes state) u)"
    and lo: "\<And>v. v \<noteq> u \<Longrightarrow> live_ids ss' v = live_ids (strokes state) v"
  shows "room_inv (case push_stack (userStacks state) u i of
                     Inl e \<Rightarrow> state\<lparr>strokes := ss'\<rparr>
                   | Inr stacks \<Rightarrow> state\<lparr>strokes := ss', userStacks := stacks\<rparr>)"
proof (cases "userStacks state u")
  case (Some old)
  let ?st = "state\<lparr>strokes := ss', userStacks := (userStacks state)(u \<mapsto> old @ [i])\<rparr>"
  from room_inv_stack[OF inv Some] have o: "distinct old" "set old = set (live_ids (strokes state) u)"
    by auto
  have "room_inv ?st"
  proof (rule room_invI)
    show "distinct (map id' (strokes ?st))" using d by simp
  next
    fix v assume n: "userStacks ?st v = None" and p: "object_prototype v = None"
    from n have "v \<noteq> u" by auto
    with n have "userStacks state v = None" by simp
    from room_inv_no_stack[OF inv this p] lo[OF \<open>v \<noteq> u\<close>]
    show "live_ids (strokes ?st) v = []" by simp
  next
    fix v sv assume s: "userStacks ?st v = Some sv"
    show "distinct sv \<and> set sv = set (live_ids (strokes ?st) v)"
    proof (cases "v = u")
      case True
      with s have "sv = old @ [i]" by simp
      with o fresh lu True show ?thesis by simp
    next
      case False
      with s have "userStacks state v = Some sv" by simp
      from room_inv_stack[OF inv this] lo[OF False] show ?thesis by simp
    qed
  qed
  then show ?thesis using Some by (simp add: push_stack_own)
next
  case None
  show ?thesis
  proof (cases "object_prototype u")
    case (Some inh)
    let ?st = "state\<lparr>strokes := ss'\<rparr>"
    have "room_inv ?st"
    proof (rule room_invI)
      show "distinct (map id' (strokes ?st))" using d by simp
    next
      fix v assume n: "userStacks ?st v = None" and p: "object_prototype v = None"
      from p Some have "v \<noteq> u" by auto
      from n have "userStacks state v = None" by simp
      from room_inv_no_stack[OF inv this p] lo[OF \<open>v \<noteq> u\<close>]
      show "live_ids (strokes ?st) v = []" by simp
    next
      fix v sv assume s: "userStacks ?st v = Some sv"
      with None have "v \<noteq> u" by auto
      from s have "userStacks state v = Some sv" by simp
      from room_inv_stack[OF inv this] lo[OF \<open>v \<noteq> u\<close>]
      show "distinct sv \<and> set sv = set (live_ids (strokes ?st) v)" by simp
    qed
    then show ?thesis using None Some by (simp add: push_stack_inherit)
  next
    case pn: None
    let ?st = "state\<lparr>strokes := ss', userStacks := (userStacks state)(u \<mapsto> [i])\<rparr>"
    from room_inv_no_stack[OF inv None pn] have e: "live_ids (strokes state) u = []" .
    have "room_inv ?st"
    proof (rule room_invI)
      show "distinct (map id' (strokes ?st))" using d by simp
    next
      fix v assume n: "userStacks ?st v = None" and p: "object_prototype v = None"
      from n have "v \<noteq> u" by auto
      with n have "userStacks state v = None" by simp
      from room_inv_no_stack[OF inv this p] lo[OF \<open>v \<noteq> u\<close>]
      show "live_ids (strokes ?st) v = []" by simp
    next
      fix v sv assume s: "userStacks ?st v = Some sv"
      show "distinct sv \<and> set sv = set (live_ids (strokes ?st) v)"
      proof (cases "v = u")
        case True
        with s have "sv = [i]" by simp
        with e lu True show ?thesis by simp
      next
        case False
        with s have "userStacks state v = Some sv" by simp
        from room_inv_stack[OF inv this] lo[OF False] show ?thesis by simp
      qed
    qed
    then show ?thesis using None pn by (simp add: push_stack_undefined)
  qed
qed

lemma begin_stroke_inv:
  assumes "room_inv state" and "uuid \<notin> id' ` set (strokes state)"
  shows "room_inv (fst (begin_stroke state uid uuid meta))"
proof -
  let ?s = "\<lparr>id' = uuid, userId = uid, color = m_color meta, size' = m_size meta,
      tool = m_tool meta, points = [], removed = None\<rparr>"
  have e: "fst (begin_stroke state uid uuid meta) =
      (case push_stack (userStacks state) uid uuid of
         Inl e \<Rightarrow> state\<lparr>strokes := strokes state @ [?s]\<rparr>
       | Inr stacks \<Rightarrow> state\<lparr>strokes := strokes state @ [?s], userStacks := stacks\<rparr>)"
    by (simp add: begin_stroke_def Let_def split: sum.splits)
  have l: "live_ids (strokes state @ [?s]) u = live_ids (strokes state) u @ (if uid = u then [uuid] else [])" for u
    by (simp add: live_ids_append live_ids_Cons live_ids_Nil truthy_def)
  have fresh: "uuid \<notin> set (live_ids (strokes state) uid)"
    using assms(2) live_ids_subset[of "strokes state" uid] by blast
  show ?thesis
    unfolding e
  proof (rule room_inv_after_push[OF assms(1)])
    show "distinct (map id' (strokes state @ [?s]))"
      using room_inv_distinct[OF assms(1)] assms(2) by simp
    show "set (live_ids (strokes state @ [?s]) uid) = insert uuid (set (live_ids (strokes state) uid))"
      by (simp add: l)
    show "uuid \<notin> set (live_ids (strokes state) uid)" by (rule fresh)
    show "live_ids (strokes state @ [?s]) v = live_ids (strokes state) v" if "v \<noteq> uid" for v
      using that by (simp add: l)
  qed
qed

lemma live_ids_same_key:
  assumes "id' s' = id' s" and "userId s' = userId s" and "truthy (removed s') = truthy (removed s)"
  shows "live_ids (xs @ s' # ys) u = live_ids (xs @ s # ys) u"
  using assms by (simp add: live_ids_append live_ids_Cons)

lemma add_points_inv:
  assumes "room_inv state"
  shows "room_inv (fst (add_points state strokeId pts))"
proof (cases "find (\<lambda>st. id' st = strokeId \<and> \<not> truthy (removed st)) (strokes state)")
  case None
  then show ?thesis using assms by (simp add: add_points_def)
next
  case (Some s)
  let ?P = "\<lambda>st. id' st = strokeId \<and> \<not> truthy (removed st)"
  let ?s' = "s\<lparr>points := points s @ take 200 pts\<rparr>"
  from find_split[OF Some] obtain xs ys where
    sp: "strokes state = xs @ s # ys" "\<forall>a\<in>set xs. \<not> ?P a" "?P s" by blast
  have m: "mutate_found ?P (\<lambda>st. st\<lparr>points := points st @ take 200 pts\<rparr>) (strokes state) = xs @ ?s' # ys"
    unfolding sp(1) using sp(2,3) by (rule mutate_found_first_match)
  have e: "fst (add_points state strokeId pts) = state\<lparr>strokes := xs @ ?s' # ys\<rparr>"
    using Some m by (simp add: add_points_def Let_def)
  have l: "live_ids (xs @ ?s' # ys) u = live_ids (strokes state) u" for u
    unfolding sp(1) by (rule live_ids_same_key) simp_all
  have "room_inv (state\<lparr>strokes := xs @ ?s' # ys\<rparr>)"
  proof (rule room_invI)
    show "distinct (map id' (strokes (state\<lparr>strokes := xs @ ?s' # ys\<rparr>)))"
      using room_inv_distinct[OF assms] by (simp add: sp(1))
  next
    fix u assume "userStacks (state\<lparr>strokes := xs @ ?s' # ys\<rparr>) u = None"
      and "object_prototype u = None"
    then show "live_ids (strokes (state\<lparr>strokes := xs @ ?s' # ys\<rparr>)) u = []"
      using room_inv_no_stack[OF assms, of u] by (simp add: l)
  next
    fix u st assume "userStacks (state\<lparr>strokes := xs @ ?s' # ys\<rparr>) u = Some st"
    then show "distinct st \<and> set st = set (live_ids (strokes (state\<lparr>strokes := xs @ ?s' # ys\<rparr>)) u)"
      using room_inv_stack[OF assms, of u st] by (simp add: l)
  qed
  with e show ?thesis by simp
qed

text \<open>Under the invariant the id on top of a stack names a stroke that \<open>find\<close> returns.\<close>

lemma room_inv_top_removable:
  assumes "room_inv state" and "userStacks state u = Some (st @ [i])"
  shows "\<exists>xs s ys. strokes state = xs @ s # ys \<and> id' s = i \<and> userId s = u \<and> \<not> truthy (removed s)
     \<and> find (\<lambda>x. id' x = i \<and> \<not> truthy (removed x)) (strokes state) = Some s"
proof -
  let ?P = "\<lambda>x. id' x = i \<and> \<not> truthy (removed x)"
  from room_inv_stack[OF assms] have "i \<in> set (live_ids (strokes state) u)" by auto
  then obtain s where s: "s \<in> set (strokes state)" "id' s = i" "userId s = u" "\<not> truthy (removed s)"
    by (auto simp: live_ids_mem)
  then have "find ?P (strokes state) \<noteq> None"
    by (auto simp: find_None_iff)
  then obtain s' where f: "find ?P (strokes state) = Some s'" by auto
  from find_split[OF f] obtain xs ys where sp: "strokes state = xs @ s' # ys" "?P s'" by blast
  have "s' \<in> set (strokes state)" using sp(1) by simp
  with room_inv_distinct[OF assms(1)] s(1,2) sp(2) have "s' = s"
    by (intro same_id_same_stroke[of "strokes state"]) simp_all
  with sp s f show ?thesis by blast
qed

lemma undo_inv:
  assumes "room_inv state"
  shows "room_inv (fst (undo state u))"
proof (cases "userStacks state u")
  case None
  then show ?thesis using assms by (simp add: undo_no_own)
next
  case (Some stack)
  show ?thesis
  proof (cases stack rule: rev_cases)
    case Nil
    with Some have "undo state u = (state\<lparr>strokes := strokes state, userStacks := (userStacks state)(u \<mapsto> [])\<rparr>, [])"
      by (simp add: undo_own undo_loop_Nil)
    moreover have "(userStacks state)(u \<mapsto> []) = userStacks state"
      using Some Nil by (intro map_upd_triv) simp
    ultimately show ?thesis using assms by simp
  next
    case (snoc st i)
    from room_inv_top_removable[OF assms Some[unfolded snoc]] obtain xs s ys where
      sp: "strokes state = xs @ s # ys" "id' s = i" "userId s = u" "\<not> truthy (removed s)" by blast
    let ?s' = "s\<lparr>removed := Some True\<rparr>"
    let ?st = "state\<lparr>strokes := xs @ ?s' # ys, userStacks := (userStacks state)(u \<mapsto> st)\<rparr>"
    have d: "distinct (map id' (strokes state))" by (rule room_inv_distinct[OF assms])
    have e: "fst (undo state u) = ?st"
      using undo_top_live[OF sp(1) d sp(4), of u st] Some snoc sp(2) by simp
    have notin: "i \<notin> id' ` set xs" "i \<notin> id' ` set ys"
      using d sp(1,2) by auto
    have lu: "live_ids (xs @ ?s' # ys) u = live_ids xs u @ live_ids ys u"
      by (simp add: live_ids_append live_ids_Cons truthy_def)
    have lold: "live_ids (strokes state) u = live_ids xs u @ i # live_ids ys u"
      using sp by (simp add: live_ids_append live_ids_Cons)
    have lother: "live_ids (xs @ ?s' # ys) v = live_ids (strokes state) v" if "v \<noteq> u" for v
      using that sp by (simp add: live_ids_append live_ids_Cons)
    have inot: "i \<notin> set (live_ids xs u)" "i \<notin> set (live_ids ys u)"
      using notin live_ids_subset[of xs u] live_ids_subset[of ys u] by blast+
    from room_inv_stack[OF assms Some] snoc
    have stk: "distinct st" "i \<notin> set st" "insert i (set st) = set (live_ids (strokes state) u)"
      by auto
    have "room_inv ?st"
    proof (rule room_invI)
      show "distinct (map id' (strokes ?st))" using d by (simp add: sp(1))
    next
      fix v assume n: "userStacks ?st v = None" and p: "object_prototype v = None"
      from n have "v \<noteq> u" by auto
      with n have "userStacks state v = None" by simp
      from room_inv_no_stack[OF assms this p] lother[OF \<open>v \<noteq> u\<close>]
      show "live_ids (strokes ?st) v = []" by simp
    next
      fix v sv assume s: "userStacks ?st v = Some sv"
      show "distinct sv \<and> set sv = set (live_ids (strokes ?st) v)"
      proof (cases "v = u")
        case True
        with s have "sv = st" by simp
        moreover have "set st = set (live_ids xs u) \<union> set (live_ids ys u)"
          using stk(2,3) inot unfolding lold by auto
        ultimately show ?thesis using stk(1) True by (simp add: lu)
      next
        case False
        with s have "userStacks state v = Some sv" by simp
        from room_inv_stack[OF assms this] lother[OF False] show ?thesis by simp
      qed
    qed
    with e show ?thesis by simp
  qed
qed

lemma redo_inv:
  assumes "room_inv state"
  shows "room_inv (fst (redo state u))"
proof (cases "findIndex (\<lambda>st. userId st = u \<and> truthy (removed st)) (rev (strokes state))")
  case None
  then show ?thesis using assms by (simp add: redo_def)
next
  case (Some idx)
  let ?P = "\<lambda>st. userId st = u \<and> truthy (removed st)"
  from findIndex_split[OF Some] obtain ys' zs' where
    sp': "rev (strokes state) = ys' @ (rev (strokes state) ! idx) # zs'"
      "\<forall>a\<in>set ys'. \<not> ?P a" "?P (rev (strokes state) ! idx)" by blast
  define s where "s = rev (strokes state) ! idx"
  define xs where "xs = rev zs'"
  define ys where "ys = rev ys'"
  have "rev (rev (strokes state)) = rev (ys' @ s # zs')"
    using sp'(1) by (simp only: s_def)
  then have sp: "strokes state = xs @ s # ys"
    by (simp add: xs_def ys_def)
  have ps: "userId s = u" "truthy (removed s)" using sp'(3) by (simp_all add: s_def)
  have nys: "\<forall>a\<in>set ys. \<not> (userId a = u \<and> truthy (removed a))"
    using sp'(2) by (simp add: ys_def)
  let ?s' = "s\<lparr>removed := Some False\<rparr>"
  have e: "fst (redo state u) =
      (case push_stack (userStacks state) u (id' s) of
         Inl e \<Rightarrow> state\<lparr>strokes := xs @ ?s' # ys\<rparr>
       | Inr stacks \<Rightarrow> state\<lparr>strokes := xs @ ?s' # ys, userStacks := stacks\<rparr>)"
    using redo_last_tombstoned[OF sp ps nys] by (simp split: sum.splits)
  have d: "distinct (map id' (strokes state))" by (rule room_inv_distinct[OF assms])
  have notin: "id' s \<notin> id' ` set xs" "id' s \<notin> id' ` set ys"
    using d sp by auto
  have inot: "id' s \<notin> set (live_ids xs u)" "id' s \<notin> set (live_ids ys u)"
    using notin live_ids_subset[of xs u] live_ids_subset[of ys u] by blast+
  have lu: "live_ids (xs @ ?s' # ys) u = live_ids xs u @ id' s # live_ids ys u"
    using ps by (simp add: live_ids_append live_ids_Cons truthy_def)
  have lold: "live_ids (strokes state) u = live_ids xs u @ live_ids ys u"
    using sp ps by (simp add: live_ids_append live_ids_Cons)
  show ?thesis
    unfolding e
  proof (rule room_inv_after_push[OF assms])
    show "distinct (map id' (xs @ ?s' # ys))" using d by (simp add: sp)
    show "set (live_ids (xs @ ?s' # ys) u) = insert (id' s) (set (live_ids (strokes state) u))"
      unfolding lu lold by auto
    show "id' s \<notin> set (live_ids (strokes state) u)"
      unfolding lold using inot by simp
    show "live_ids (xs @ ?s' # ys) v = live_ids (strokes state) v" if "v \<noteq> u" for v
      using that sp ps by (simp add: live_ids_append live_ids_Cons)
  qed
qed

lemma handle_inv:
  assumes "room_inv state" and "is_begin_stroke m \<longrightarrow> uuid \<notin> id' ` set (strokes state)"
  shows "room_inv (fst (handle state uid uuid m))"
proof (cases m)
  case (BeginStroke rm meta)
  with assms show ?thesis by (simp add: begin_stroke_inv)
next
  case (AddPoints rm strokeId pts)
  with assms show ?thesis by (simp add: add_points_inv)
next
  case (Undo rm u)
  with assms show ?thesis by (simp add: undo_inv)
next
  case (Redo rm u)
  with assms show ?thesis by (simp add: redo_inv)
next
  case (Clear rm)
  then show ?thesis by (simp add: clear_def room_state_all_upd room_inv_created)
qed (use assms in \<open>simp_all add: end_stroke_def cursor_def\<close>)

lemma reachable_inv: "reachable state \<Longrightarrow> room_inv state"
  by (induction rule: reachable.induct) (simp_all add: room_inv_created handle_inv)

lemma stale_stack_empty:
  assumes "room_inv state" and "userStacks state u = Some stale"
    and "\<forall>j\<in>set stale. find (\<lambda>st. id' st = j \<and> \<not> truthy (removed st)) (strokes state) = None"
  shows "stale = []"
proof (rule ccontr)
  assume "stale \<noteq> []"
  then obtain j where j: "j \<in> set stale" by (cases stale) auto
  with room_inv_stack[OF assms(1,2)] have "j \<in> set (live_ids (strokes state) u)" by simp
  then obtain s where "s \<in> set (strokes state)" "id' s = j" "\<not> truthy (removed s)"
    by (auto simp: live_ids_mem)
  then have "find (\<lambda>st. id' st = j \<and> \<not> truthy (removed st)) (strokes state) \<noteq> None"
    by (auto simp: find_None_iff)
  with assms(3) j show False by simp
qed

section \<open>undo pops until it finds a stroke it can remove\<close>

text \<open>
  What \<open>undo(room, userId)\<close> does, by the entry of \<open>userStacks\<close> under the user id.
  With a stack of the user's own: it pops until a popped id names a stroke that exists and
  is not tombstoned, tombstones that stroke and no other, keeps the part of the stack
  below the id, requests \<open>broadcast(room, remove_stroke(id))\<close> with no exception, and
  stops; the ids popped on the way (those above it, each naming no stroke or only
  tombstoned ones) cause no broadcast. When no id of the stack names a removable stroke,
  no stroke changes and nothing is broadcast; in a state that the room reaches by handling
  messages such a stack is empty, and the room state is unchanged (in other states the ids
  popped are gone from the stack afterwards). With no stack of the user's own: the room
  state is unchanged and nothing is broadcast, and the handler raises a \<open>TypeError\<close>
  when the user id is the name of an inherited method that has parameters, and completes
  otherwise. On the server the sender's room holds the state \<open>undo\<close> leaves, the
  \<open>remove_stroke\<close> event is delivered once to every open connection of the sender's
  room, the sender included, and in the other cases nothing is delivered.
\<close>

lemma undo_pops_until_removable:
  assumes "find (\<lambda>c. cid c = w) (clients srv) = Some ws"
    and "snd (getRoom (rooms srv) (ws_room ws)) = Room state"
  shows "(\<forall>pre i stale s. userStacks state u = Some (pre @ i # stale)
            \<and> (\<forall>j\<in>set stale. find (\<lambda>st. id' st = j \<and> \<not> truthy (removed st)) (strokes state) = None)
            \<and> find (\<lambda>st. id' st = i \<and> \<not> truthy (removed st)) (strokes state) = Some s \<longrightarrow>
            (\<exists>k<length (strokes state). strokes state ! k = s \<and>
               undo state u =
                 (state\<lparr>strokes := (strokes state)[k := s\<lparr>removed := Some True\<rparr>],
                        userStacks := (userStacks state)(u \<mapsto> pre)\<rparr>,
                  [Broadcast (remove_stroke_ev i) False]))
            \<and> (\<exists>srv'. on_message srv w uuid (Undo rm u) =
                  Some (srv', map (\<lambda>c. Deliver (cid c) (remove_stroke_ev i))
                    (filter (\<lambda>c. readyState c = OPEN \<and> ws_room c = ws_room ws) (clients srv)))
                \<and> rooms srv' (ws_room ws) = Some (fst (undo state u))))
    \<and> (\<forall>stale. userStacks state u = Some stale
            \<and> (\<forall>j\<in>set stale. find (\<lambda>st. id' st = j \<and> \<not> truthy (removed st)) (strokes state) = None) \<longrightarrow>
            undo state u = (state\<lparr>userStacks := (userStacks state)(u \<mapsto> [])\<rparr>, [])
            \<and> (reachable state \<longrightarrow> stale = [] \<and> undo state u = (state, []))
            \<and> (\<exists>srv'. on_message srv w uuid (Undo rm u) = Some (srv', [])
                \<and> rooms srv' (ws_room ws) = Some (fst (undo state u))))
    \<and> (userStacks state u = None \<longrightarrow>
            undo state u =
              (state, if (\<exists>n. object_prototype u = Some (Method (Suc n))) then [Throw TypeError] else [])
            \<and> (\<exists>srv'. on_message srv w uuid (Undo rm u) =
                  Some (srv', if (\<exists>n. object_prototype u = Some (Method (Suc n)))
                              then [Uncaught TypeError] else [])
                \<and> rooms srv' (ws_room ws) = Some state))"
proof -
  let ?srv' = "srv\<lparr>rooms := (fst (getRoom (rooms srv) (ws_room ws)))(ws_room ws \<mapsto> fst (undo state u))\<rparr>"
  have m: "on_message srv w uuid (Undo rm u) =
      Some (?srv', concat (map (emit (clients srv) (ws_room ws) ws) (snd (undo state u))))"
    by (simp add: on_message_handle[OF assms(1) _ assms(2)])
  have r: "rooms ?srv' (ws_room ws) = Some (fst (undo state u))" by simp
  have 1: "(\<exists>k<length (strokes state). strokes state ! k = s \<and>
               undo state u =
                 (state\<lparr>strokes := (strokes state)[k := s\<lparr>removed := Some True\<rparr>],
                        userStacks := (userStacks state)(u \<mapsto> pre)\<rparr>,
                  [Broadcast (remove_stroke_ev i) False]))
            \<and> (\<exists>srv'. on_message srv w uuid (Undo rm u) =
                  Some (srv', map (\<lambda>c. Deliver (cid c) (remove_stroke_ev i))
                    (filter (\<lambda>c. readyState c = OPEN \<and> ws_room c = ws_room ws) (clients srv)))
                \<and> rooms srv' (ws_room ws) = Some (fst (undo state u)))"
    if "userStacks state u = Some (pre @ i # stale)"
      and "\<forall>j\<in>set stale. find (\<lambda>st. id' st = j \<and> \<not> truthy (removed st)) (strokes state) = None"
      and "find (\<lambda>st. id' st = i \<and> \<not> truthy (removed st)) (strokes state) = Some s"
    for pre i stale s
  proof -
    from undo_loop_pops_to_hit[OF that(2,3), of pre]
    obtain k where k: "k < length (strokes state)" "strokes state ! k = s"
      "undo_loop (strokes state) (pre @ i # stale) =
         ((strokes state)[k := s\<lparr>removed := Some True\<rparr>], pre, [Broadcast (remove_stroke_ev i) False])"
      by blast
    from k(3) that(1) have u: "undo state u =
        (state\<lparr>strokes := (strokes state)[k := s\<lparr>removed := Some True\<rparr>],
               userStacks := (userStacks state)(u \<mapsto> pre)\<rparr>,
         [Broadcast (remove_stroke_ev i) False])"
      by (simp add: undo_own)
    have "concat (map (emit (clients srv) (ws_room ws) ws) (snd (undo state u)))
        = map (\<lambda>c. Deliver (cid c) (remove_stroke_ev i))
            (filter (\<lambda>c. readyState c = OPEN \<and> ws_room c = ws_room ws) (clients srv))"
      unfolding u by (simp add: emit_all del: emit.simps)
    with m r have "\<exists>srv'. on_message srv w uuid (Undo rm u) =
                  Some (srv', map (\<lambda>c. Deliver (cid c) (remove_stroke_ev i))
                    (filter (\<lambda>c. readyState c = OPEN \<and> ws_room c = ws_room ws) (clients srv)))
                \<and> rooms srv' (ws_room ws) = Some (fst (undo state u))"
      by (intro exI[of _ ?srv']) simp
    with k(1,2) u show ?thesis by blast
  qed
  have 2: "undo state u = (state\<lparr>userStacks := (userStacks state)(u \<mapsto> [])\<rparr>, [])
            \<and> (reachable state \<longrightarrow> stale = [] \<and> undo state u = (state, []))
            \<and> (\<exists>srv'. on_message srv w uuid (Undo rm u) = Some (srv', [])
                \<and> rooms srv' (ws_room ws) = Some (fst (undo state u)))"
    if "userStacks state u = Some stale"
      and "\<forall>j\<in>set stale. find (\<lambda>st. id' st = j \<and> \<not> truthy (removed st)) (strokes state) = None"
    for stale
  proof -
    from that(2) have "undo_loop (strokes state) stale = (strokes state, [], [])"
      by (rule undo_loop_exhausted)
    with that(1) have u: "undo state u = (state\<lparr>userStacks := (userStacks state)(u \<mapsto> [])\<rparr>, [])"
      by (simp add: undo_own)
    have a: "stale = [] \<and> undo state u = (state, [])" if "reachable state"
    proof -
      from stale_stack_empty[OF reachable_inv[OF that] \<open>userStacks state u = Some stale\<close>
          \<open>\<forall>j\<in>set stale. find (\<lambda>st. id' st = j \<and> \<not> truthy (removed st)) (strokes state) = None\<close>]
      have e: "stale = []" .
      with \<open>userStacks state u = Some stale\<close> have "(userStacks state)(u \<mapsto> []) = userStacks state"
        by (intro map_upd_triv) simp
      with u e show ?thesis by simp
    qed
    have "concat (map (emit (clients srv) (ws_room ws) ws) (snd (undo state u))) = []"
      unfolding u by simp
    with m r have "\<exists>srv'. on_message srv w uuid (Undo rm u) = Some (srv', [])
                \<and> rooms srv' (ws_room ws) = Some (fst (undo state u))"
      by (intro exI[of _ ?srv']) simp
    with u a show ?thesis by blast
  qed
  have 3: "undo state u =
              (state, if (\<exists>n. object_prototype u = Some (Method (Suc n))) then [Throw TypeError] else [])
            \<and> (\<exists>srv'. on_message srv w uuid (Undo rm u) =
                  Some (srv', if (\<exists>n. object_prototype u = Some (Method (Suc n)))
                              then [Uncaught TypeError] else [])
                \<and> rooms srv' (ws_room ws) = Some state)"
    if "userStacks state u = None"
  proof -
    have u: "undo state u =
        (state, if (\<exists>n. object_prototype u = Some (Method (Suc n))) then [Throw TypeError] else [])"
      using that by (rule undo_no_own)
    have "concat (map (emit (clients srv) (ws_room ws) ws) (snd (undo state u)))
        = (if (\<exists>n. object_prototype u = Some (Method (Suc n))) then [Uncaught TypeError] else [])"
      unfolding u by simp
    with m r u have "\<exists>srv'. on_message srv w uuid (Undo rm u) =
                  Some (srv', if (\<exists>n. object_prototype u = Some (Method (Suc n)))
                              then [Uncaught TypeError] else [])
                \<and> rooms srv' (ws_room ws) = Some state"
      by (intro exI[of _ ?srv']) simp
    with u show ?thesis by blast
  qed
  from 1 2 3 show ?thesis by blast
qed

lemma room_one_undone_eq:
  "room_one_undone =
     \<lparr>strokes = [\<lparr>id' = ''a'', userId = ''u'', color = ''#000'', size' = 2, tool = pen,
                   points = [], removed = Some True\<rparr>],
       userStacks = [''u'' \<mapsto> []]\<rparr>"
proof -
  let ?s = "\<lparr>id' = ''a'', userId = ''u'', color = ''#000'', size' = 2, tool = pen,
                   points = [], removed = None\<rparr>"
  have p: "object_prototype ''u'' = None" by (simp add: object_prototype_def)
  have b: "fst (handle \<lparr>strokes = [], userStacks = Map.empty\<rparr> ''u'' ''a'' (BeginStroke ''r'' meta0))
      = \<lparr>strokes = [?s], userStacks = [''u'' \<mapsto> [''a'']]\<rparr>"
    using p by (simp add: begin_stroke_def Let_def push_stack_undefined meta0_def)
  have "undo \<lparr>strokes = [?s], userStacks = [''u'' \<mapsto> [''a'']]\<rparr> ''u'' =
      (\<lparr>strokes = [?s\<lparr>removed := Some True\<rparr>], userStacks = [''u'' \<mapsto> []]\<rparr>,
       [Broadcast (remove_stroke_ev ''a'') False])"
    using undo_top_live[of "\<lparr>strokes = [?s], userStacks = [''u'' \<mapsto> [''a'']]\<rparr>" "[]" ?s "[]" "''u''" "[]"]
    by (simp add: truthy_def)
  with b show ?thesis by (simp add: room_one_undone_def)
qed

lemma room_one_undone_reachable: "reachable room_one_undone"
proof -
  have r1: "reachable (fst (handle \<lparr>strokes = [], userStacks = Map.empty\<rparr>
       ''u'' ''a'' (BeginStroke ''r'' meta0)))"
    by (rule reachable.handled[OF reachable.created]) simp
  show ?thesis
    unfolding room_one_undone_def
    by (rule reachable.handled[OF r1]) simp
qed

lemma undo_pops_until_removable_examples:
  "undo room_mixed ''u'' =
     (\<lparr>strokes = [stroke_A\<lparr>removed := Some True\<rparr>, stroke_B\<lparr>removed := Some True\<rparr>],
       userStacks = [''u'' \<mapsto> []]\<rparr>,
      [Broadcast (remove_stroke_ev ''a'') False])
   \<and> (\<exists>srv'. on_message server_mixed 2 ''x'' (Undo ''r'' ''u'')
       = Some (srv', [Deliver 1 (remove_stroke_ev ''a''), Deliver 2 (remove_stroke_ev ''a'')]))
   \<and> undo room_mixed ''nobody'' = (room_mixed, [])
   \<and> undo room_mixed ''constructor'' = (room_mixed, [Throw TypeError])
   \<and> (\<exists>srv'. on_message server_mixed 2 ''x'' (Undo ''r'' ''constructor'') = Some (srv', [Uncaught TypeError]))
   \<and> reachable room_one_undone
   \<and> undo room_one_undone ''u'' = (room_one_undone, [])"
proof -
  have f: "find (\<lambda>c. cid c = 2) (clients server_mixed) = Some conn2"
    by (simp add: server_mixed_def conn1_def conn2_def)
  have s: "snd (getRoom (rooms server_mixed) (ws_room conn2)) = Room room_mixed"
    by (simp add: server_mixed_def conn2_def getRoom_def get_prop_def)
  have st: "userStacks room_mixed ''u'' = Some ([] @ ''a'' # [''b'', ''x''])"
    by (simp add: room_mixed_def)
  have miss: "\<forall>j\<in>set [''b'', ''x'']. find (\<lambda>st. id' st = j \<and> \<not> truthy (removed st)) (strokes room_mixed) = None"
    by (simp add: room_mixed_def stroke_A_def stroke_B_def truthy_def)
  have hit: "find (\<lambda>st. id' st = ''a'' \<and> \<not> truthy (removed st)) (strokes room_mixed) = Some stroke_A"
    by (simp add: room_mixed_def stroke_A_def stroke_B_def truthy_def)
  from undo_pops_until_removable[OF f s, of "''u''" "''x''" "''r''"] st miss hit
  have t: "(\<exists>k<length (strokes room_mixed). strokes room_mixed ! k = stroke_A \<and>
             undo room_mixed ''u'' =
               (room_mixed\<lparr>strokes := (strokes room_mixed)[k := stroke_A\<lparr>removed := Some True\<rparr>],
                      userStacks := (userStacks room_mixed)(''u'' \<mapsto> [])\<rparr>,
                [Broadcast (remove_stroke_ev ''a'') False]))
          \<and> (\<exists>srv'. on_message server_mixed 2 ''x'' (Undo ''r'' ''u'')
              = Some (srv', map (\<lambda>c. Deliver (cid c) (remove_stroke_ev ''a''))
                  (filter (\<lambda>c. readyState c = OPEN \<and> ws_room c = ws_room conn2) (clients server_mixed)))
              \<and> rooms srv' (ws_room conn2) = Some (fst (undo room_mixed ''u'')))"
    by blast
  then obtain k where k: "k < length (strokes room_mixed)" "strokes room_mixed ! k = stroke_A"
    "undo room_mixed ''u'' =
       (room_mixed\<lparr>strokes := (strokes room_mixed)[k := stroke_A\<lparr>removed := Some True\<rparr>],
              userStacks := (userStacks room_mixed)(''u'' \<mapsto> [])\<rparr>,
        [Broadcast (remove_stroke_ev ''a'') False])"
    by blast
  have "k = 0"
  proof -
    from k(1) have "k = 0 \<or> k = 1" by (auto simp: room_mixed_def)
    with k(2) show ?thesis
      by (auto simp: room_mixed_def stroke_A_def stroke_B_def)
  qed
  with k(3) have 1: "undo room_mixed ''u'' =
     (\<lparr>strokes = [stroke_A\<lparr>removed := Some True\<rparr>, stroke_B\<lparr>removed := Some True\<rparr>],
       userStacks = [''u'' \<mapsto> []]\<rparr>,
      [Broadcast (remove_stroke_ev ''a'') False])"
    by (simp add: room_mixed_def)
  from t obtain srv' where "on_message server_mixed 2 ''x'' (Undo ''r'' ''u'')
              = Some (srv', map (\<lambda>c. Deliver (cid c) (remove_stroke_ev ''a''))
                  (filter (\<lambda>c. readyState c = OPEN \<and> ws_room c = ws_room conn2) (clients server_mixed)))"
    by blast
  then have "on_message server_mixed 2 ''x'' (Undo ''r'' ''u'')
       = Some (srv', [Deliver 1 (remove_stroke_ev ''a''), Deliver 2 (remove_stroke_ev ''a'')])"
    by (simp add: server_mixed_def conn1_def conn2_def conn3_def conn4_def)
  then have 2: "\<exists>srv'. on_message server_mixed 2 ''x'' (Undo ''r'' ''u'')
       = Some (srv', [Deliver 1 (remove_stroke_ev ''a''), Deliver 2 (remove_stroke_ev ''a'')])"
    by blast
  have none: "userStacks room_mixed ''nobody'' = None" "userStacks room_mixed ''constructor'' = None"
    by (simp_all add: room_mixed_def)
  have pn: "\<not> (\<exists>n. object_prototype ''nobody'' = Some (Method (Suc n)))"
    by (simp add: object_prototype_def)
  have pc: "\<exists>n. object_prototype ''constructor'' = Some (Method (Suc n))"
    by (simp add: object_prototype_def)
  from undo_pops_until_removable[OF f s, of "''nobody''" "''x''" "''r''"] none(1) pn
  have 3: "undo room_mixed ''nobody'' = (room_mixed, [])"
    by simp
  from undo_pops_until_removable[OF f s, of "''constructor''" "''x''" "''r''"] none(2) pc
  have 4: "undo room_mixed ''constructor'' = (room_mixed, [Throw TypeError])
      \<and> (\<exists>srv'. on_message server_mixed 2 ''x'' (Undo ''r'' ''constructor'') = Some (srv', [Uncaught TypeError]))"
    by auto
  have f': "find (\<lambda>c. cid c = 2) (clients server_one_undone) = Some conn2"
    by (simp add: server_one_undone_def conn1_def conn2_def)
  have s': "snd (getRoom (rooms server_one_undone) (ws_room conn2)) = Room room_one_undone"
    by (simp add: server_one_undone_def conn2_def getRoom_def get_prop_def)
  have e: "userStacks room_one_undone ''u'' = Some []
      \<and> (\<forall>j\<in>set []. find (\<lambda>st. id' st = j \<and> \<not> truthy (removed st)) (strokes room_one_undone) = None)"
    by (simp add: room_one_undone_eq)
  from undo_pops_until_removable[OF f' s', of "''u''" "''x''" "''r''"] e room_one_undone_reachable
  have 5: "undo room_one_undone ''u'' = (room_one_undone, [])"
    by blast
  from 1 2 3 4 5 room_one_undone_reachable show ?thesis by simp
qed

text \<open>
  C3 does not hold of the code for every user id: an \<open>undo\<close> whose \<open>userId\<close> is
  \<open>constructor\<close>, in a room where no stroke was begun under that id, finds the inherited
  function \<open>Object\<close> under the key, takes it as the stack (its \<open>length\<close> is 1, so the
  loop is entered), and \<open>stack.pop()\<close> raises an exception that nothing catches. The
  handler does not pop until the stack is exhausted and return, as it does for a user id
  with an empty stack or with none. Here user \<open>u\<close> has begun stroke \<open>a\<close> in room \<open>r\<close> and
  undone it; a further \<open>undo\<close> by \<open>u\<close> or by \<open>nobody\<close> returns with the room as it was and
  nothing sent, and the \<open>undo\<close> by \<open>constructor\<close> raises.
\<close>

theorem undo_inherited_user_raises:
  "room_one_undone =
     fst (run empty_room [(''u'', ''a'', BeginStroke ''r'' meta0), (''u'', ''x'', Undo ''r'' ''u'')])
   \<and> undo room_one_undone ''u'' = (room_one_undone, [])
   \<and> undo room_one_undone ''nobody'' = (room_one_undone, [])
   \<and> undo room_one_undone ''constructor'' = (room_one_undone, [Throw TypeError])
   \<and> on_message server_one_undone 2 ''y'' (Undo ''r'' ''nobody'') = Some (server_one_undone, [])
   \<and> on_message server_one_undone 2 ''y'' (Undo ''r'' ''constructor'') =
       Some (server_one_undone, [Uncaught TypeError])"
proof -
  have 1: "room_one_undone =
     fst (run empty_room [(''u'', ''a'', BeginStroke ''r'' meta0), (''u'', ''x'', Undo ''r'' ''u'')])"
    by (simp add: room_one_undone_def empty_room_def case_prod_beta)
  have s: "userStacks room_one_undone ''u'' = Some []"
    "userStacks room_one_undone ''nobody'' = None"
    "userStacks room_one_undone ''constructor'' = None"
    by (simp_all add: room_one_undone_eq)
  have 2: "undo room_one_undone ''u'' = (room_one_undone, [])"
  proof -
    have "(userStacks room_one_undone)(''u'' \<mapsto> []) = userStacks room_one_undone"
      using s(1) by (intro map_upd_triv)
    with s(1) show ?thesis by (simp add: undo_own undo_loop_Nil)
  qed
  have 3: "undo room_one_undone ''nobody'' = (room_one_undone, [])"
    using s(2) by (simp add: undo_no_own object_prototype_def)
  have 4: "undo room_one_undone ''constructor'' = (room_one_undone, [Throw TypeError])"
    using s(3) by (simp add: undo_no_own object_prototype_def)
  have f: "find (\<lambda>c. cid c = 2) (clients server_one_undone) = Some conn2"
    by (simp add: server_one_undone_def conn1_def conn2_def)
  have g: "snd (getRoom (rooms server_one_undone) (ws_room conn2)) = Room room_one_undone"
    by (simp add: server_one_undone_def conn2_def getRoom_def get_prop_def)
  have r: "server_one_undone\<lparr>rooms := (fst (getRoom (rooms server_one_undone) (ws_room conn2)))
                (ws_room conn2 \<mapsto> room_one_undone)\<rparr> = server_one_undone"
    by (simp add: server_one_undone_def conn2_def getRoom_def get_prop_def)
  have "on_message server_one_undone 2 ''y'' (Undo ''r'' ''nobody'') =
      Some (server_one_undone\<lparr>rooms := (fst (getRoom (rooms server_one_undone) (ws_room conn2)))
                (ws_room conn2 \<mapsto> fst (handle room_one_undone (ws_userId conn2) ''y'' (Undo ''r'' ''nobody'')))\<rparr>,
            concat (map (emit (clients server_one_undone) (ws_room conn2) conn2)
              (snd (handle room_one_undone (ws_userId conn2) ''y'' (Undo ''r'' ''nobody'')))))"
    by (rule on_message_handle[OF f _ g]) simp
  then have 5: "on_message server_one_undone 2 ''y'' (Undo ''r'' ''nobody'') = Some (server_one_undone, [])"
    by (simp add: 3 r)
  have "on_message server_one_undone 2 ''y'' (Undo ''r'' ''constructor'') =
      Some (server_one_undone\<lparr>rooms := (fst (getRoom (rooms server_one_undone) (ws_room conn2)))
                (ws_room conn2 \<mapsto> fst (handle room_one_undone (ws_userId conn2) ''y'' (Undo ''r'' ''constructor'')))\<rparr>,
            concat (map (emit (clients server_one_undone) (ws_room conn2) conn2)
              (snd (handle room_one_undone (ws_userId conn2) ''y'' (Undo ''r'' ''constructor'')))))"
    by (rule on_message_handle[OF f _ g]) simp
  then have 6: "on_message server_one_undone 2 ''y'' (Undo ''r'' ''constructor'') =
       Some (server_one_undone, [Uncaught TypeError])"
    by (simp add: 4 r)
  show ?thesis
    by (intro conjI) (rule 1, rule 2, rule 3, rule 4, rule 5, rule 6)
qed

section \<open>undo, undo, redo on three strokes of one user\<close>

text \<open>
  C2 fails as stated: after the two undos have tombstoned C and then B, the reverse scan
  of \<open>redo\<close> meets C first, so it is C that is restored and pushed, and B stays
  tombstoned. In \<open>room_ABC\<close> (strokes A, B, C of user \<open>u\<close>, stack \<open>[a, b, c]\<close>) the two
  undos give \<open>room_undone\<close>, and the redo restores C.
\<close>

theorem redo_restores_C_counterexample:
  "fst (undo (fst (undo room_ABC ''u'')) ''u'') = room_undone
   \<and> redo room_undone ''u'' =
       (\<lparr>strokes = [stroke_A, stroke_B\<lparr>removed := Some True\<rparr>, stroke_C\<lparr>removed := Some False\<rparr>],
         userStacks = [''u'' \<mapsto> [''a'', ''c'']]\<rparr>,
        [Broadcast (restore_stroke_ev (stroke_C\<lparr>removed := Some False\<rparr>)) False])"
proof -
  have ids: "id' stroke_A = ''a''" "id' stroke_B = ''b''" "id' stroke_C = ''c''"
    by (simp_all add: stroke_A_def stroke_B_def stroke_C_def)
  have live: "\<not> truthy (removed stroke_B)" "\<not> truthy (removed stroke_C)"
    by (simp_all add: stroke_B_def stroke_C_def truthy_def)
  have 1: "undo room_ABC ''u'' =
      (\<lparr>strokes = [stroke_A, stroke_B, stroke_C\<lparr>removed := Some True\<rparr>],
        userStacks = [''u'' \<mapsto> [''a'', ''b'']]\<rparr>,
       [Broadcast (remove_stroke_ev ''c'') False])"
    using undo_top_live[of room_ABC "[stroke_A, stroke_B]" stroke_C "[]" "''u''" "[''a'', ''b'']"] live
    by (simp add: room_ABC_def ids)
  have 2: "undo \<lparr>strokes = [stroke_A, stroke_B, stroke_C\<lparr>removed := Some True\<rparr>],
        userStacks = [''u'' \<mapsto> [''a'', ''b'']]\<rparr> ''u'' =
      (room_undone, [Broadcast (remove_stroke_ev ''b'') False])"
    using undo_top_live[of "\<lparr>strokes = [stroke_A, stroke_B, stroke_C\<lparr>removed := Some True\<rparr>],
        userStacks = [''u'' \<mapsto> [''a'', ''b'']]\<rparr>" "[stroke_A]" stroke_B
        "[stroke_C\<lparr>removed := Some True\<rparr>]" "''u''" "[''a'']"] live
    by (simp add: room_undone_def ids)
  have 3: "redo room_undone ''u'' =
       (\<lparr>strokes = [stroke_A, stroke_B\<lparr>removed := Some True\<rparr>, stroke_C\<lparr>removed := Some False\<rparr>],
         userStacks = [''u'' \<mapsto> [''a'', ''c'']]\<rparr>,
        [Broadcast (restore_stroke_ev (stroke_C\<lparr>removed := Some False\<rparr>)) False])"
    using redo_last_tombstoned_own[of room_undone "[stroke_A, stroke_B\<lparr>removed := Some True\<rparr>]"
        "stroke_C\<lparr>removed := Some True\<rparr>" "[]" "''u''" "[''a'']"]
    by (simp add: room_undone_def ids truthy_def stroke_C_def)
  from 1 2 3 show ?thesis by simp
qed

text \<open>
  C2, amended. Let the strokes A, B, C occur in the room in that order, none tombstoned,
  all by user \<open>u\<close>, with their ids the top three entries of the stack of \<open>u\<close> in that
  order, the stroke ids of the room distinct, and no tombstoned stroke of \<open>u\<close> after C.
  Then the first \<open>undo\<close> by \<open>u\<close> tombstones C and the second tombstones B, each with a
  \<open>remove_stroke\<close> broadcast to all, and a following \<open>redo\<close> by \<open>u\<close> untombstones C, the
  most recently created tombstoned stroke of \<open>u\<close> (B, the last one removed, stays
  tombstoned), pushes the id of C back onto the stack of \<open>u\<close>, and requests the
  broadcast to all of \<open>restore_stroke\<close> with the whole stroke C, its points included.
\<close>

theorem undo_undo_redo_restores_latest:
  assumes "strokes state = s0 @ A # s1 @ B # s2 @ C # s3"
    and "distinct (map id' (strokes state))"
    and "userId A = u \<and> userId B = u \<and> userId C = u"
    and "\<not> truthy (removed A) \<and> \<not> truthy (removed B) \<and> \<not> truthy (removed C)"
    and "userStacks state u = Some (st @ [id' A, id' B, id' C])"
    and "\<forall>a\<in>set s3. \<not> (userId a = u \<and> truthy (removed a))"
  shows "undo state u =
       (state\<lparr>strokes := s0 @ A # s1 @ B # s2 @ C\<lparr>removed := Some True\<rparr> # s3,
              userStacks := (userStacks state)(u \<mapsto> st @ [id' A, id' B])\<rparr>,
        [Broadcast (remove_stroke_ev (id' C)) False])
    \<and> undo (state\<lparr>strokes := s0 @ A # s1 @ B # s2 @ C\<lparr>removed := Some True\<rparr> # s3,
                  userStacks := (userStacks state)(u \<mapsto> st @ [id' A, id' B])\<rparr>) u =
       (state\<lparr>strokes := s0 @ A # s1 @ B\<lparr>removed := Some True\<rparr> # s2 @ C\<lparr>removed := Some True\<rparr> # s3,
              userStacks := (userStacks state)(u \<mapsto> st @ [id' A])\<rparr>,
        [Broadcast (remove_stroke_ev (id' B)) False])
    \<and> redo (state\<lparr>strokes := s0 @ A # s1 @ B\<lparr>removed := Some True\<rparr> # s2 @ C\<lparr>removed := Some True\<rparr> # s3,
                  userStacks := (userStacks state)(u \<mapsto> st @ [id' A])\<rparr>) u =
       (state\<lparr>strokes := s0 @ A # s1 @ B\<lparr>removed := Some True\<rparr> # s2 @ C\<lparr>removed := Some False\<rparr> # s3,
              userStacks := (userStacks state)(u \<mapsto> st @ [id' A, id' C])\<rparr>,
        [Broadcast (restore_stroke_ev (C\<lparr>removed := Some False\<rparr>)) False])
    \<and> points (C\<lparr>removed := Some False\<rparr>) = points C"
proof -
  let ?st1 = "state\<lparr>strokes := s0 @ A # s1 @ B # s2 @ C\<lparr>removed := Some True\<rparr> # s3,
              userStacks := (userStacks state)(u \<mapsto> st @ [id' A, id' B])\<rparr>"
  let ?st2 = "state\<lparr>strokes := s0 @ A # s1 @ B\<lparr>removed := Some True\<rparr> # s2 @ C\<lparr>removed := Some True\<rparr> # s3,
              userStacks := (userStacks state)(u \<mapsto> st @ [id' A])\<rparr>"
  have 1: "undo state u = (?st1, [Broadcast (remove_stroke_ev (id' C)) False])"
    using undo_top_live[of state "s0 @ A # s1 @ B # s2" C s3 u "st @ [id' A, id' B]"] assms(1,2,4,5)
    by simp
  have d1: "distinct (map id' (strokes ?st1))"
    using assms(1,2) by simp
  have 2: "undo ?st1 u = (?st2, [Broadcast (remove_stroke_ev (id' B)) False])"
    using undo_top_live[of ?st1 "s0 @ A # s1" B "s2 @ C\<lparr>removed := Some True\<rparr> # s3" u "st @ [id' A]"]
      d1 assms(4)
    by simp
  have 3: "redo ?st2 u =
       (state\<lparr>strokes := s0 @ A # s1 @ B\<lparr>removed := Some True\<rparr> # s2 @ C\<lparr>removed := Some False\<rparr> # s3,
              userStacks := (userStacks state)(u \<mapsto> st @ [id' A, id' C])\<rparr>,
        [Broadcast (restore_stroke_ev (C\<lparr>removed := Some False\<rparr>)) False])"
    using redo_last_tombstoned_own[of ?st2 "s0 @ A # s1 @ B\<lparr>removed := Some True\<rparr> # s2"
        "C\<lparr>removed := Some True\<rparr>" s3 u "st @ [id' A]"] assms(3,6)
    by (simp add: truthy_def)
  from 1 2 3 show ?thesis by simp
qed

theorem undo_undo_redo_restores_latest_witness:
  "undo room_ABC ''u'' =
       (\<lparr>strokes = [stroke_A, stroke_B, stroke_C\<lparr>removed := Some True\<rparr>],
         userStacks = [''u'' \<mapsto> [''a'', ''b'']]\<rparr>,
        [Broadcast (remove_stroke_ev ''c'') False])
   \<and> undo \<lparr>strokes = [stroke_A, stroke_B, stroke_C\<lparr>removed := Some True\<rparr>],
         userStacks = [''u'' \<mapsto> [''a'', ''b'']]\<rparr> ''u'' =
       (\<lparr>strokes = [stroke_A, stroke_B\<lparr>removed := Some True\<rparr>, stroke_C\<lparr>removed := Some True\<rparr>],
         userStacks = [''u'' \<mapsto> [''a'']]\<rparr>,
        [Broadcast (remove_stroke_ev ''b'') False])
   \<and> redo \<lparr>strokes = [stroke_A, stroke_B\<lparr>removed := Some True\<rparr>, stroke_C\<lparr>removed := Some True\<rparr>],
         userStacks = [''u'' \<mapsto> [''a'']]\<rparr> ''u'' =
       (\<lparr>strokes = [stroke_A, stroke_B\<lparr>removed := Some True\<rparr>, stroke_C\<lparr>removed := Some False\<rparr>],
         userStacks = [''u'' \<mapsto> [''a'', ''c'']]\<rparr>,
        [Broadcast (restore_stroke_ev (stroke_C\<lparr>removed := Some False\<rparr>)) False])"
proof -
  have ids: "id' stroke_A = ''a''" "id' stroke_B = ''b''" "id' stroke_C = ''c''"
    by (simp_all add: stroke_A_def stroke_B_def stroke_C_def)
  have a1: "strokes room_ABC = [] @ stroke_A # [] @ stroke_B # [] @ stroke_C # []"
    by (simp add: room_ABC_def)
  have a2: "distinct (map id' (strokes room_ABC))"
    by (simp add: room_ABC_def ids)
  have a3: "userId stroke_A = ''u'' \<and> userId stroke_B = ''u'' \<and> userId stroke_C = ''u''"
    by (simp add: stroke_A_def stroke_B_def stroke_C_def)
  have a4: "\<not> truthy (removed stroke_A) \<and> \<not> truthy (removed stroke_B) \<and> \<not> truthy (removed stroke_C)"
    by (simp add: stroke_A_def stroke_B_def stroke_C_def truthy_def)
  have a5: "userStacks room_ABC ''u'' = Some ([] @ [id' stroke_A, id' stroke_B, id' stroke_C])"
    by (simp add: room_ABC_def ids)
  have a6: "\<forall>a\<in>set []. \<not> (userId a = ''u'' \<and> truthy (removed a))"
    by simp
  from undo_undo_redo_restores_latest[OF a1 a2 a3 a4 a5 a6]
  show ?thesis by (simp add: room_ABC_def ids)
qed

section \<open>undo followed at once by redo\<close>

text \<open>
  C5 fails as stated: the stroke that \<open>redo\<close> restores is the last tombstoned stroke of
  the user in creation order, which need not be the stroke the \<open>undo\<close> just removed. In
  \<open>room_A_b\<close> (A live, B tombstoned by an earlier undo) an \<open>undo\<close> by \<open>u\<close> tombstones A,
  and the \<open>redo\<close> that follows restores B; A stays tombstoned.
\<close>

theorem undo_redo_other_stroke_counterexample:
  "undo room_A_b ''u'' =
     (\<lparr>strokes = [stroke_A\<lparr>removed := Some True\<rparr>, stroke_B\<lparr>removed := Some True\<rparr>],
       userStacks = [''u'' \<mapsto> []]\<rparr>,
      [Broadcast (remove_stroke_ev ''a'') False])
   \<and> redo (fst (undo room_A_b ''u'')) ''u'' =
     (\<lparr>strokes = [stroke_A\<lparr>removed := Some True\<rparr>, stroke_B\<lparr>removed := Some False\<rparr>],
       userStacks = [''u'' \<mapsto> [''b'']]\<rparr>,
      [Broadcast (restore_stroke_ev (stroke_B\<lparr>removed := Some False\<rparr>)) False])"
proof -
  have ids: "id' stroke_A = ''a''" "id' stroke_B = ''b''"
    by (simp_all add: stroke_A_def stroke_B_def)
  have 1: "undo room_A_b ''u'' =
     (\<lparr>strokes = [stroke_A\<lparr>removed := Some True\<rparr>, stroke_B\<lparr>removed := Some True\<rparr>],
       userStacks = [''u'' \<mapsto> []]\<rparr>,
      [Broadcast (remove_stroke_ev ''a'') False])"
    using undo_first_removable[of room_A_b "[]" stroke_A "[stroke_B\<lparr>removed := Some True\<rparr>]"
        "''a''" "''u''" "[]" "[]"]
    by (simp add: room_A_b_def ids) (simp add: stroke_A_def truthy_def)
  have 2: "redo \<lparr>strokes = [stroke_A\<lparr>removed := Some True\<rparr>, stroke_B\<lparr>removed := Some True\<rparr>],
       userStacks = [''u'' \<mapsto> []]\<rparr> ''u'' =
     (\<lparr>strokes = [stroke_A\<lparr>removed := Some True\<rparr>, stroke_B\<lparr>removed := Some False\<rparr>],
       userStacks = [''u'' \<mapsto> [''b'']]\<rparr>,
      [Broadcast (restore_stroke_ev (stroke_B\<lparr>removed := Some False\<rparr>)) False])"
    using redo_last_tombstoned_own[of "\<lparr>strokes = [stroke_A\<lparr>removed := Some True\<rparr>, stroke_B\<lparr>removed := Some True\<rparr>],
       userStacks = [''u'' \<mapsto> []]\<rparr>" "[stroke_A\<lparr>removed := Some True\<rparr>]"
        "stroke_B\<lparr>removed := Some True\<rparr>" "[]" "''u''" "[]"]
    by (simp add: ids truthy_def stroke_B_def)
  from 1 2 show ?thesis by simp
qed

text \<open>
  C5, amended. Let \<open>undo\<close> by user \<open>u\<close> tombstone the stroke \<open>s\<close>: the id \<open>i\<close> is the
  topmost id of the stack of \<open>u\<close> that names a removable stroke, and \<open>s\<close> is the first
  stroke of the room with that id that is not tombstoned. The undo leaves the points of
  every stroke as they were. If \<open>s\<close> was authored by \<open>u\<close> and no tombstoned stroke of \<open>u\<close>
  stands after \<open>s\<close> in creation order, then the \<open>redo\<close> by \<open>u\<close> that follows at once
  restores \<open>s\<close>: the stroke broadcast in \<open>restore_stroke\<close> and standing in the room is \<open>s\<close>
  with \<open>removed = false\<close>, its point sequence the one \<open>s\<close> had before the undo, and its id
  is back on the stack. If a tombstoned stroke of \<open>u\<close> stands after \<open>s\<close>, the redo restores
  the last such stroke \<open>t\<close> instead, with the points \<open>t\<close> had, pushes the id of \<open>t\<close>, and
  \<open>s\<close> stays tombstoned.
\<close>

theorem undo_redo_restores_points:
  assumes "strokes state = xs @ s # ys"
    and "\<forall>a\<in>set xs. \<not> (id' a = i \<and> \<not> truthy (removed a))"
    and "id' s = i \<and> \<not> truthy (removed s)"
    and "userStacks state u = Some (pre @ i # stale)"
    and "\<forall>j\<in>set stale. find (\<lambda>st. id' st = j \<and> \<not> truthy (removed st)) (strokes state) = None"
  shows "undo state u =
       (state\<lparr>strokes := xs @ s\<lparr>removed := Some True\<rparr> # ys, userStacks := (userStacks state)(u \<mapsto> pre)\<rparr>,
        [Broadcast (remove_stroke_ev i) False])
    \<and> map points (strokes (fst (undo state u))) = map points (strokes state)
    \<and> (userId s = u \<and> (\<forall>a\<in>set ys. \<not> (userId a = u \<and> truthy (removed a))) \<longrightarrow>
         redo (fst (undo state u)) u =
           (state\<lparr>strokes := xs @ s\<lparr>removed := Some False\<rparr> # ys,
                  userStacks := (userStacks state)(u \<mapsto> pre @ [i])\<rparr>,
            [Broadcast (restore_stroke_ev (s\<lparr>removed := Some False\<rparr>)) False])
         \<and> points (s\<lparr>removed := Some False\<rparr>) = points s)
    \<and> (\<forall>ys1 t ys2. ys = ys1 @ t # ys2 \<and> userId t = u \<and> truthy (removed t)
           \<and> (\<forall>a\<in>set ys2. \<not> (userId a = u \<and> truthy (removed a))) \<longrightarrow>
         redo (fst (undo state u)) u =
           (state\<lparr>strokes := xs @ s\<lparr>removed := Some True\<rparr> # ys1 @ t\<lparr>removed := Some False\<rparr> # ys2,
                  userStacks := (userStacks state)(u \<mapsto> pre @ [id' t])\<rparr>,
            [Broadcast (restore_stroke_ev (t\<lparr>removed := Some False\<rparr>)) False])
         \<and> points (t\<lparr>removed := Some False\<rparr>) = points t)"
proof -
  let ?st1 = "state\<lparr>strokes := xs @ s\<lparr>removed := Some True\<rparr> # ys,
      userStacks := (userStacks state)(u \<mapsto> pre)\<rparr>"
  have 1: "undo state u = (?st1, [Broadcast (remove_stroke_ev i) False])"
    using assms(1-5) by (rule undo_first_removable)
  have 2: "map points (strokes (fst (undo state u))) = map points (strokes state)"
    unfolding 1 by (simp add: assms(1))
  have 3: "redo (fst (undo state u)) u =
           (state\<lparr>strokes := xs @ s\<lparr>removed := Some False\<rparr> # ys,
                  userStacks := (userStacks state)(u \<mapsto> pre @ [i])\<rparr>,
            [Broadcast (restore_stroke_ev (s\<lparr>removed := Some False\<rparr>)) False])
         \<and> points (s\<lparr>removed := Some False\<rparr>) = points s"
    if "userId s = u" "\<forall>a\<in>set ys. \<not> (userId a = u \<and> truthy (removed a))"
    unfolding 1
    using redo_last_tombstoned_own[of ?st1 xs "s\<lparr>removed := Some True\<rparr>" ys u pre] assms(3) that
    by (simp add: truthy_def)
  have 4: "redo (fst (undo state u)) u =
           (state\<lparr>strokes := xs @ s\<lparr>removed := Some True\<rparr> # ys1 @ t\<lparr>removed := Some False\<rparr> # ys2,
                  userStacks := (userStacks state)(u \<mapsto> pre @ [id' t])\<rparr>,
            [Broadcast (restore_stroke_ev (t\<lparr>removed := Some False\<rparr>)) False])
         \<and> points (t\<lparr>removed := Some False\<rparr>) = points t"
    if "ys = ys1 @ t # ys2" "userId t = u" "truthy (removed t)"
      "\<forall>a\<in>set ys2. \<not> (userId a = u \<and> truthy (removed a))"
    for ys1 t ys2
    unfolding 1
    using redo_last_tombstoned_own[of ?st1 "xs @ s\<lparr>removed := Some True\<rparr> # ys1" t ys2 u pre] that
    by simp
  from 1 2 3 4 show ?thesis by blast
qed

theorem undo_redo_restores_points_witness:
  "undo room_ABC ''u'' =
       (\<lparr>strokes = [stroke_A, stroke_B, stroke_C\<lparr>removed := Some True\<rparr>],
         userStacks = [''u'' \<mapsto> [''a'', ''b'']]\<rparr>,
        [Broadcast (remove_stroke_ev ''c'') False])
   \<and> redo (fst (undo room_ABC ''u'')) ''u'' =
       (\<lparr>strokes = [stroke_A, stroke_B, stroke_C\<lparr>removed := Some False\<rparr>],
         userStacks = [''u'' \<mapsto> [''a'', ''b'', ''c'']]\<rparr>,
        [Broadcast (restore_stroke_ev (stroke_C\<lparr>removed := Some False\<rparr>)) False])
   \<and> points (stroke_C\<lparr>removed := Some False\<rparr>) = [p1, p0]
   \<and> fst (redo (fst (undo room_A_b ''u'')) ''u'') =
       \<lparr>strokes = [stroke_A\<lparr>removed := Some True\<rparr>, stroke_B\<lparr>removed := Some False\<rparr>],
         userStacks = [''u'' \<mapsto> [''b'']]\<rparr>"
proof -
  have ids: "id' stroke_A = ''a''" "id' stroke_B = ''b''" "id' stroke_C = ''c''"
    by (simp_all add: stroke_A_def stroke_B_def stroke_C_def)
  have a1: "strokes room_ABC = [stroke_A, stroke_B] @ stroke_C # []"
    by (simp add: room_ABC_def)
  have a2: "\<forall>a\<in>set [stroke_A, stroke_B]. \<not> (id' a = ''c'' \<and> \<not> truthy (removed a))"
    by (simp add: ids)
  have a3: "id' stroke_C = ''c'' \<and> \<not> truthy (removed stroke_C)"
    by (simp add: stroke_C_def truthy_def)
  have a4: "userStacks room_ABC ''u'' = Some ([''a'', ''b''] @ ''c'' # [])"
    by (simp add: room_ABC_def)
  have a5: "\<forall>j\<in>set []. find (\<lambda>st. id' st = j \<and> \<not> truthy (removed st)) (strokes room_ABC) = None"
    by simp
  have a6: "userId stroke_C = ''u'' \<and> (\<forall>a\<in>set []. \<not> (userId a = ''u'' \<and> truthy (removed a)))"
    by (simp add: stroke_C_def)
  from undo_redo_restores_points[OF a1 a2 a3 a4 a5] a6
  have "undo room_ABC ''u'' =
       (room_ABC\<lparr>strokes := [stroke_A, stroke_B] @ stroke_C\<lparr>removed := Some True\<rparr> # [],
            userStacks := (userStacks room_ABC)(''u'' \<mapsto> [''a'', ''b''])\<rparr>,
        [Broadcast (remove_stroke_ev ''c'') False])"
    and "redo (fst (undo room_ABC ''u'')) ''u'' =
       (room_ABC\<lparr>strokes := [stroke_A, stroke_B] @ stroke_C\<lparr>removed := Some False\<rparr> # [],
              userStacks := (userStacks room_ABC)(''u'' \<mapsto> [''a'', ''b''] @ [''c''])\<rparr>,
        [Broadcast (restore_stroke_ev (stroke_C\<lparr>removed := Some False\<rparr>)) False])"
    by blast+
  then have A: "undo room_ABC ''u'' =
       (\<lparr>strokes = [stroke_A, stroke_B, stroke_C\<lparr>removed := Some True\<rparr>],
         userStacks = [''u'' \<mapsto> [''a'', ''b'']]\<rparr>,
        [Broadcast (remove_stroke_ev ''c'') False])
   \<and> redo (fst (undo room_ABC ''u'')) ''u'' =
       (\<lparr>strokes = [stroke_A, stroke_B, stroke_C\<lparr>removed := Some False\<rparr>],
         userStacks = [''u'' \<mapsto> [''a'', ''b'', ''c'']]\<rparr>,
        [Broadcast (restore_stroke_ev (stroke_C\<lparr>removed := Some False\<rparr>)) False])
   \<and> points (stroke_C\<lparr>removed := Some False\<rparr>) = [p1, p0]"
    by (simp add: room_ABC_def) (simp add: stroke_C_def)
  have b1: "strokes room_A_b = [] @ stroke_A # [stroke_B\<lparr>removed := Some True\<rparr>]"
    by (simp add: room_A_b_def)
  have b2: "\<forall>a\<in>set []. \<not> (id' a = ''a'' \<and> \<not> truthy (removed a))"
    by simp
  have b3: "id' stroke_A = ''a'' \<and> \<not> truthy (removed stroke_A)"
    by (simp add: stroke_A_def truthy_def)
  have b4: "userStacks room_A_b ''u'' = Some ([] @ ''a'' # [])"
    by (simp add: room_A_b_def)
  have b5: "\<forall>j\<in>set []. find (\<lambda>st. id' st = j \<and> \<not> truthy (removed st)) (strokes room_A_b) = None"
    by simp
  have b6: "[stroke_B\<lparr>removed := Some True\<rparr>] = [] @ stroke_B\<lparr>removed := Some True\<rparr> # []
      \<and> userId (stroke_B\<lparr>removed := Some True\<rparr>) = ''u'' \<and> truthy (removed (stroke_B\<lparr>removed := Some True\<rparr>))
      \<and> (\<forall>a\<in>set []. \<not> (userId a = ''u'' \<and> truthy (removed a)))"
    by (simp add: stroke_B_def truthy_def)
  from undo_redo_restores_points[OF b1 b2 b3 b4 b5] b6
  have "redo (fst (undo room_A_b ''u'')) ''u'' =
           (room_A_b\<lparr>strokes := [] @ stroke_A\<lparr>removed := Some True\<rparr> # [] @ stroke_B\<lparr>removed := Some True, removed := Some False\<rparr> # [],
                  userStacks := (userStacks room_A_b)(''u'' \<mapsto> [] @ [id' (stroke_B\<lparr>removed := Some True\<rparr>)])\<rparr>,
            [Broadcast (restore_stroke_ev (stroke_B\<lparr>removed := Some True, removed := Some False\<rparr>)) False])"
    by blast
  then have B: "fst (redo (fst (undo room_A_b ''u'')) ''u'') =
       \<lparr>strokes = [stroke_A\<lparr>removed := Some True\<rparr>, stroke_B\<lparr>removed := Some False\<rparr>],
         userStacks = [''u'' \<mapsto> [''b'']]\<rparr>"
    by (simp add: room_A_b_def ids)
  from A B show ?thesis by blast
qed

section \<open>Runs of messages for one stroke\<close>




section \<open>The points of a stroke are the batches received, each cut to 200\<close>




section \<open>Counting deliveries\<close>

lemma length_filter_cid:
  assumes "distinct (map cid cs)"
  shows "length (filter (\<lambda>c. cid c = k \<and> P c) cs) = (if \<exists>c\<in>set cs. cid c = k \<and> P c then 1 else 0)"
  using assms
proof (induction cs)
  case Nil
  then show ?case by simp
next
  case (Cons a cs)
  show ?case
  proof (cases "cid a = k")
    case True
    with Cons.prems have "k \<notin> cid ` set cs" by simp
    then have n: "\<forall>c\<in>set cs. cid c \<noteq> k" by blast
    then have "filter (\<lambda>c. cid c = k \<and> P c) cs = []"
      by (auto simp: filter_empty_conv)
    with True n show ?thesis by auto
  next
    case False
    with Cons show ?thesis by auto
  qed
qed

lemma find_in_set: "find P xs = Some a \<Longrightarrow> a \<in> set xs \<and> P a"
  by (auto simp: find_Some_iff)

lemma on_begin_stroke_appends:
  "\<exists>s. strokes_c (fst (on_begin_stroke cl st)) = strokes_c cl @ [s] \<and> id' s = id' st"
  by (simp add: on_begin_stroke_def Let_def)

lemma on_begin_stroke_second:
  "strokes_c (fst (on_begin_stroke (fst (on_begin_stroke cl st)) st)) =
     strokes_c cl @
       [st\<lparr>points := (if userId st = userId_c cl \<and> drawing cl \<and> currentId cl = None
                       then pendingPoints cl else [])\<rparr>,
        st\<lparr>points := []\<rparr>]"
  by (auto simp: on_begin_stroke_def Let_def)

lemma count_received:
  "length (filter (\<lambda>d. d = Deliver k e) (map (\<lambda>c. Deliver (cid c) e) (filter P cs)))
     = length (filter (\<lambda>c. cid c = k \<and> P c) cs)"
  by (induction cs) auto

section \<open>The initiator of a stroke receives begin\_stroke twice, unless the push raises\<close>

text \<open>
  A \<open>begin_stroke\<close> request from an open connection \<open>w\<close> whose user id has a stack of its
  own in the room, or is no name inherited from \<open>Object.prototype\<close>, with the connections
  pairwise distinct: the deliveries are the \<open>begin_stroke\<close> event to every open
  connection of the sender's room (the broadcast, which excepts nobody) followed by the
  same event to \<open>w\<close> again (the direct send). So \<open>w\<close> receives the event twice, every other
  open connection of the room receives it once, and nothing else happens. On the client,
  the handler of \<open>begin_stroke\<close> appends one entry with the event's id to the local stroke
  list whatever the client's state, so the two copies leave two entries with the same id:
  the first with the buffered points if the client was waiting for its id, the second
  empty.
\<close>

lemma begin_stroke_echoed_twice:
  assumes "find (\<lambda>c. cid c = w) (clients srv) = Some ws"
    and "readyState ws = OPEN"
    and "distinct (map cid (clients srv))"
    and "snd (getRoom (rooms srv) (ws_room ws)) = Room state"
    and "userStacks state (ws_userId ws) \<noteq> None \<or> object_prototype (ws_userId ws) = None"
    and "ev = begin_stroke_ev \<lparr>id' = uuid, userId = ws_userId ws, color = m_color meta,
           size' = m_size meta, tool = m_tool meta, points = [], removed = None\<rparr>"
  shows "\<exists>srv'. on_message srv w uuid (BeginStroke rm meta)
        = Some (srv', map (\<lambda>c. Deliver (cid c) ev)
            (filter (\<lambda>c. readyState c = OPEN \<and> ws_room c = ws_room ws) (clients srv)) @ [Deliver w ev])"
    and "length (filter (\<lambda>d. d = Deliver w ev)
          (map (\<lambda>c. Deliver (cid c) ev)
            (filter (\<lambda>c. readyState c = OPEN \<and> ws_room c = ws_room ws) (clients srv)) @ [Deliver w ev])) = 2"
    and "\<forall>c\<in>set (clients srv). cid c \<noteq> w \<and> readyState c = OPEN \<and> ws_room c = ws_room ws \<longrightarrow>
          length (filter (\<lambda>d. d = Deliver (cid c) ev)
          (map (\<lambda>c. Deliver (cid c) ev)
            (filter (\<lambda>c. readyState c = OPEN \<and> ws_room c = ws_room ws) (clients srv)) @ [Deliver w ev])) = 1"
proof -
  let ?P = "\<lambda>c. readyState c = OPEN \<and> ws_room c = ws_room ws"
  let ?s = "\<lparr>id' = uuid, userId = ws_userId ws, color = m_color meta,
           size' = m_size meta, tool = m_tool meta, points = [], removed = None\<rparr>"
  have w: "cid ws = w" using assms(1) by (rule find_cid)
  have ws: "ws \<in> set (clients srv)" using find_in_set[OF assms(1)] by simp
  have "\<exists>stacks. push_stack (userStacks state) (ws_userId ws) uuid = Inr stacks"
  proof (cases "userStacks state (ws_userId ws)")
    case None
    with assms(5) show ?thesis by (simp add: push_stack_def get_prop_def)
  next
    case (Some st)
    then show ?thesis by (simp add: push_stack_def get_prop_def)
  qed
  then obtain stacks where p: "push_stack (userStacks state) (ws_userId ws) uuid = Inr stacks"
    by blast
  have h: "snd (handle state (ws_userId ws) uuid (BeginStroke rm meta)) = [Broadcast ev False, Send ev]"
    using p by (simp add: begin_stroke_def Let_def assms(6))
  have m: "on_message srv w uuid (BeginStroke rm meta) =
      Some (srv\<lparr>rooms := (fst (getRoom (rooms srv) (ws_room ws)))
                (ws_room ws \<mapsto> fst (handle state (ws_userId ws) uuid (BeginStroke rm meta)))\<rparr>,
            concat (map (emit (clients srv) (ws_room ws) ws)
              (snd (handle state (ws_userId ws) uuid (BeginStroke rm meta)))))"
    by (rule on_message_handle[OF assms(1) _ assms(4)]) simp
  have "concat (map (emit (clients srv) (ws_room ws) ws) [Broadcast ev False, Send ev])
      = map (\<lambda>c. Deliver (cid c) ev) (filter ?P (clients srv)) @ [Deliver w ev]"
    by (simp add: broadcast_def send_def assms(2) w)
  with m h show "\<exists>srv'. on_message srv w uuid (BeginStroke rm meta)
        = Some (srv', map (\<lambda>c. Deliver (cid c) ev) (filter ?P (clients srv)) @ [Deliver w ev])"
    by simp
  have own: "length (filter (\<lambda>c. cid c = w \<and> ?P c) (clients srv)) = 1"
    using length_filter_cid[OF assms(3), of w ?P] ws w assms(2) by auto
  show "length (filter (\<lambda>d. d = Deliver w ev)
          (map (\<lambda>c. Deliver (cid c) ev) (filter ?P (clients srv)) @ [Deliver w ev])) = 2"
    unfolding filter_append length_append count_received own by simp
  show "\<forall>c\<in>set (clients srv). cid c \<noteq> w \<and> readyState c = OPEN \<and> ws_room c = ws_room ws \<longrightarrow>
          length (filter (\<lambda>d. d = Deliver (cid c) ev)
          (map (\<lambda>c. Deliver (cid c) ev) (filter ?P (clients srv)) @ [Deliver w ev])) = 1"
  proof (intro ballI impI)
    fix c assume c: "c \<in> set (clients srv)"
      and h: "cid c \<noteq> w \<and> readyState c = OPEN \<and> ws_room c = ws_room ws"
    have "length (filter (\<lambda>a. cid a = cid c \<and> ?P a) (clients srv)) = 1"
      using length_filter_cid[OF assms(3), of "cid c" ?P] c h by auto
    then have "length (filter (\<lambda>d. d = Deliver (cid c) ev)
        (map (\<lambda>c. Deliver (cid c) ev) (filter ?P (clients srv)))) = 1"
      by (simp only: count_received)
    then show "length (filter (\<lambda>d. d = Deliver (cid c) ev)
          (map (\<lambda>c. Deliver (cid c) ev) (filter ?P (clients srv)) @ [Deliver w ev])) = 1"
      unfolding filter_append length_append using h by simp
  qed
qed

text \<open>
  C9 does not hold of the code for every \<open>begin_stroke\<close> request: when the sender's user
  id is \<open>constructor\<close> (chosen in its \<open>join_room\<close>), the stroke is appended to the room, and
  then \<open>(state.userStacks[s.userId] ||= []).push(id)\<close> finds the inherited function
  \<open>Object\<close> under the key, keeps it, and calls its missing \<open>push\<close>: the exception leaves the
  handler before the broadcast and the direct send, so neither the initiator nor any
  other connection of the room receives \<open>begin_stroke\<close>. Here connections 1 (user \<open>u\<close>)
  and 5 (user \<open>constructor\<close>) are open in room \<open>r\<close>: the request of 1 is delivered to 1, 5
  and 1 again, the request of 5 to nobody.
\<close>

theorem begin_stroke_inherited_user_not_echoed:
  "on_message server_names 1 ''s1'' (BeginStroke ''r'' meta0) =
     Some (server_names\<lparr>rooms :=
             [''r'' \<mapsto> \<lparr>strokes = [\<lparr>id' = ''s1'', userId = ''u'', color = ''#000'', size' = 2,
                                      tool = pen, points = [], removed = None\<rparr>],
                         userStacks = [''u'' \<mapsto> [''s1'']]\<rparr>]\<rparr>,
           [Deliver 1 (begin_stroke_ev \<lparr>id' = ''s1'', userId = ''u'', color = ''#000'', size' = 2,
                                      tool = pen, points = [], removed = None\<rparr>),
            Deliver 5 (begin_stroke_ev \<lparr>id' = ''s1'', userId = ''u'', color = ''#000'', size' = 2,
                                      tool = pen, points = [], removed = None\<rparr>),
            Deliver 1 (begin_stroke_ev \<lparr>id' = ''s1'', userId = ''u'', color = ''#000'', size' = 2,
                                      tool = pen, points = [], removed = None\<rparr>)])
   \<and> on_message server_names 5 ''s1'' (BeginStroke ''r'' meta0) =
     Some (server_names\<lparr>rooms :=
             [''r'' \<mapsto> \<lparr>strokes = [\<lparr>id' = ''s1'', userId = ''constructor'', color = ''#000'', size' = 2,
                                      tool = pen, points = [], removed = None\<rparr>],
                         userStacks = Map.empty\<rparr>]\<rparr>,
           [Uncaught TypeError])"
proof -
  let ?E = "\<lparr>strokes = [], userStacks = Map.empty\<rparr>"
  have f1: "find (\<lambda>c. cid c = 1) (clients server_names) = Some conn1"
    by (simp add: server_names_def conn1_def)
  have f5: "find (\<lambda>c. cid c = 5) (clients server_names) = Some conn5"
    by (simp add: server_names_def conn1_def conn5_def)
  have g1: "snd (getRoom (rooms server_names) (ws_room conn1)) = Room ?E"
    by (simp add: server_names_def conn1_def getRoom_def get_prop_def)
  have g5: "snd (getRoom (rooms server_names) (ws_room conn5)) = Room ?E"
    by (simp add: server_names_def conn5_def getRoom_def get_prop_def)
  have r1: "fst (getRoom (rooms server_names) (ws_room conn1)) = [''r'' \<mapsto> ?E]"
    by (simp add: server_names_def conn1_def getRoom_def get_prop_def)
  have r5: "fst (getRoom (rooms server_names) (ws_room conn5)) = [''r'' \<mapsto> ?E]"
    by (simp add: server_names_def conn5_def getRoom_def get_prop_def)
  have pu: "push_stack Map.empty ''u'' ''s1'' = Inr [''u'' \<mapsto> [''s1'']]"
    by (simp add: push_stack_def get_prop_def object_prototype_def)
  have pc: "push_stack Map.empty ''constructor'' ''s1'' = Inl TypeError"
    by (simp add: push_stack_def get_prop_def object_prototype_def)
  have h1: "handle ?E (ws_userId conn1) ''s1'' (BeginStroke ''r'' meta0) =
      (\<lparr>strokes = [\<lparr>id' = ''s1'', userId = ''u'', color = ''#000'', size' = 2,
                     tool = pen, points = [], removed = None\<rparr>],
        userStacks = [''u'' \<mapsto> [''s1'']]\<rparr>,
       [Broadcast (begin_stroke_ev \<lparr>id' = ''s1'', userId = ''u'', color = ''#000'', size' = 2,
                     tool = pen, points = [], removed = None\<rparr>) False,
        Send (begin_stroke_ev \<lparr>id' = ''s1'', userId = ''u'', color = ''#000'', size' = 2,
                     tool = pen, points = [], removed = None\<rparr>)])"
    by (simp add: begin_stroke_def Let_def conn1_def meta0_def pu)
  have h5: "handle ?E (ws_userId conn5) ''s1'' (BeginStroke ''r'' meta0) =
      (\<lparr>strokes = [\<lparr>id' = ''s1'', userId = ''constructor'', color = ''#000'', size' = 2,
                     tool = pen, points = [], removed = None\<rparr>],
        userStacks = Map.empty\<rparr>,
       [Throw TypeError])"
    by (simp add: begin_stroke_def Let_def conn5_def meta0_def pc)
  have "on_message server_names 1 ''s1'' (BeginStroke ''r'' meta0) =
      Some (server_names\<lparr>rooms := (fst (getRoom (rooms server_names) (ws_room conn1)))
                (ws_room conn1 \<mapsto> fst (handle ?E (ws_userId conn1) ''s1'' (BeginStroke ''r'' meta0)))\<rparr>,
            concat (map (emit (clients server_names) (ws_room conn1) conn1)
              (snd (handle ?E (ws_userId conn1) ''s1'' (BeginStroke ''r'' meta0)))))"
    by (rule on_message_handle[OF f1 _ g1]) simp
  then have 1: "on_message server_names 1 ''s1'' (BeginStroke ''r'' meta0) =
     Some (server_names\<lparr>rooms :=
             [''r'' \<mapsto> \<lparr>strokes = [\<lparr>id' = ''s1'', userId = ''u'', color = ''#000'', size' = 2,
                                      tool = pen, points = [], removed = None\<rparr>],
                         userStacks = [''u'' \<mapsto> [''s1'']]\<rparr>]\<rparr>,
           [Deliver 1 (begin_stroke_ev \<lparr>id' = ''s1'', userId = ''u'', color = ''#000'', size' = 2,
                                      tool = pen, points = [], removed = None\<rparr>),
            Deliver 5 (begin_stroke_ev \<lparr>id' = ''s1'', userId = ''u'', color = ''#000'', size' = 2,
                                      tool = pen, points = [], removed = None\<rparr>),
            Deliver 1 (begin_stroke_ev \<lparr>id' = ''s1'', userId = ''u'', color = ''#000'', size' = 2,
                                      tool = pen, points = [], removed = None\<rparr>)])"
    unfolding h1 r1
    by (simp add: server_names_def conn1_def conn5_def conn6_def broadcast_def send_def)
  have "on_message server_names 5 ''s1'' (BeginStroke ''r'' meta0) =
      Some (server_names\<lparr>rooms := (fst (getRoom (rooms server_names) (ws_room conn5)))
                (ws_room conn5 \<mapsto> fst (handle ?E (ws_userId conn5) ''s1'' (BeginStroke ''r'' meta0)))\<rparr>,
            concat (map (emit (clients server_names) (ws_room conn5) conn5)
              (snd (handle ?E (ws_userId conn5) ''s1'' (BeginStroke ''r'' meta0)))))"
    by (rule on_message_handle[OF f5 _ g5]) simp
  then have 2: "on_message server_names 5 ''s1'' (BeginStroke ''r'' meta0) =
     Some (server_names\<lparr>rooms :=
             [''r'' \<mapsto> \<lparr>strokes = [\<lparr>id' = ''s1'', userId = ''constructor'', color = ''#000'', size' = 2,
                                      tool = pen, points = [], removed = None\<rparr>],
                         userStacks = Map.empty\<rparr>]\<rparr>,
           [Uncaught TypeError])"
    unfolding h5 r5
    by (simp add: server_names_def conn5_def)
  show ?thesis by (rule conjI) (rule 1, rule 2)
qed

section \<open>Reachable rooms of the server\<close>

lemma count_list_distinct: "distinct xs \<Longrightarrow> a \<in> set xs \<Longrightarrow> count_list xs a = 1"
  by (induction xs) (auto simp: count_list_0_iff)

lemma count_list_pos_mem: "count_list xs a = 1 \<Longrightarrow> a \<in> set xs"
  using count_list_0_iff[of xs a] by auto

lemma getRoom_reachable:
  assumes "\<forall>r st. rs r = Some st \<longrightarrow> reachable st"
  shows "(\<forall>st. snd (getRoom rs room) = Room st \<longrightarrow> reachable st)
     \<and> (\<forall>r st. fst (getRoom rs room) r = Some st \<longrightarrow> reachable st)"
  using assms
  by (auto simp: getRoom_def get_prop_def reachable.created split: option.splits if_splits)

lemma getRoom_fresh:
  "\<forall>r st. rs r = Some st \<longrightarrow> uuid \<notin> id' ` set (strokes st) \<Longrightarrow>
     snd (getRoom rs room) = Room state \<Longrightarrow> uuid \<notin> id' ` set (strokes state)"
  by (auto simp: getRoom_def get_prop_def split: option.splits)

text \<open>
  The rooms of the server move by the steps of \<open>reachable\<close> only: if every registered room
  is reachable, and the identifier handed to a \<open>begin_stroke\<close> is carried by no stroke of
  any room, every room registered after a message is reachable.
\<close>

lemma on_message_rooms_reachable:
  assumes "\<forall>r st. rooms srv r = Some st \<longrightarrow> reachable st"
    and "is_begin_stroke m \<longrightarrow> (\<forall>r st. rooms srv r = Some st \<longrightarrow> uuid \<notin> id' ` set (strokes st))"
    and "on_message srv w uuid m = Some (srv', es)"
  shows "\<forall>r st. rooms srv' r = Some st \<longrightarrow> reachable st"
proof (cases "find (\<lambda>c. cid c = w) (clients srv)")
  case None
  then show ?thesis using assms(1,3) by (simp add: on_message_def)
next
  case (Some ws)
  show ?thesis
  proof (cases "\<exists>rm u. m = JoinRoom rm u")
    case True
    then obtain rm u where m: "m = JoinRoom rm u" by blast
    have "rooms srv' = fst (getRoom (rooms srv) rm)"
      using Some m assms(3) by (auto simp: on_message_def Let_def case_prod_beta)
    with getRoom_reachable[OF assms(1), of rm] show ?thesis by simp
  next
    case False
    then have nj: "\<And>rm u. m \<noteq> JoinRoom rm u" by blast
    show ?thesis
    proof (cases "snd (getRoom (rooms srv) (ws_room ws))")
      case (Room state)
      have r: "rooms srv' =
          (fst (getRoom (rooms srv) (ws_room ws)))(ws_room ws \<mapsto> fst (handle state (ws_userId ws) uuid m))"
        using assms(3) by (auto simp: on_message_handle[OF Some nj Room])
      have "is_begin_stroke m \<longrightarrow> uuid \<notin> id' ` set (strokes state)"
        using assms(2) getRoom_fresh[of "rooms srv" uuid "ws_room ws" state] Room by blast
      moreover have "reachable state"
        using getRoom_reachable[OF assms(1), of "ws_room ws"] Room by blast
      ultimately have "reachable (fst (handle state (ws_userId ws) uuid m))"
        by (intro reachable.handled) simp_all
      with getRoom_reachable[OF assms(1), of "ws_room ws"] show ?thesis
        unfolding r by simp
    next
      case (NotARoom v)
      have "rooms srv' = rooms srv"
        using assms(3) by (auto simp: on_message_inherited[OF Some nj NotARoom] split: option.splits)
      with assms(1) show ?thesis by simp
    qed
  qed
qed

section \<open>The stack of a user holds the ids of that user's live strokes\<close>

text \<open>
  In every room state reachable from the empty room by messages handled in it, where the
  id given to each new stroke is carried by no stroke of the room: the stroke ids are
  pairwise distinct; when the user \<open>s.userId\<close> has a stack and \<open>s.id\<close> occurs in it exactly
  once, the stroke \<open>s\<close> of the room is not tombstoned, and conversely when \<open>s.userId\<close> is
  no name inherited from \<open>Object.prototype\<close>; no stack holds an id twice, and every id on
  the stack of a user names a stroke of the room authored by that user. Hence, for every
  user with a non-empty stack, the first id \<open>undo\<close> pops names a stroke that \<open>find\<close>
  returns, and the loop ends in its first iteration with that stroke tombstoned: the
  branch that goes on popping is not taken.
\<close>

lemma reachable_stack_invariant:
  assumes "reachable state"
  shows "distinct (map id' (strokes state))
    \<and> (\<forall>s\<in>set (strokes state).
          ((\<exists>st. userStacks state (userId s) = Some st \<and> count_list st (id' s) = 1)
             \<longrightarrow> \<not> truthy (removed s))
          \<and> (object_prototype (userId s) = None \<and> \<not> truthy (removed s) \<longrightarrow>
               (\<exists>st. userStacks state (userId s) = Some st \<and> count_list st (id' s) = 1)))
    \<and> (\<forall>u st. userStacks state u = Some st \<longrightarrow>
          distinct st \<and> (\<forall>i\<in>set st. \<exists>s\<in>set (strokes state). id' s = i \<and> userId s = u))
    \<and> (\<forall>u st. userStacks state u = Some st \<and> st \<noteq> [] \<longrightarrow>
          (\<exists>s. find (\<lambda>x. id' x = last st \<and> \<not> truthy (removed x)) (strokes state) = Some s
             \<and> undo_loop (strokes state) st =
                 (mutate_found (\<lambda>x. id' x = last st \<and> \<not> truthy (removed x))
                    (\<lambda>x. x\<lparr>removed := Some True\<rparr>) (strokes state),
                  butlast st, [Broadcast (remove_stroke_ev (last st)) False])))"
proof -
  have inv: "room_inv state" using assms by (rule reachable_inv)
  have d: "distinct (map id' (strokes state))" using inv by (rule room_inv_distinct)
  have 2: "\<forall>s\<in>set (strokes state).
          ((\<exists>st. userStacks state (userId s) = Some st \<and> count_list st (id' s) = 1)
             \<longrightarrow> \<not> truthy (removed s))
          \<and> (object_prototype (userId s) = None \<and> \<not> truthy (removed s) \<longrightarrow>
               (\<exists>st. userStacks state (userId s) = Some st \<and> count_list st (id' s) = 1))"
  proof (intro ballI conjI impI)
    fix s assume s: "s \<in> set (strokes state)"
      and "object_prototype (userId s) = None \<and> \<not> truthy (removed s)"
    then have p: "object_prototype (userId s) = None" and live: "\<not> truthy (removed s)" by simp_all
    with s have m: "id' s \<in> set (live_ids (strokes state) (userId s))"
      by (auto simp: live_ids_mem)
    have "userStacks state (userId s) \<noteq> None"
    proof
      assume "userStacks state (userId s) = None"
      from room_inv_no_stack[OF inv this p] m show False by simp
    qed
    then obtain st where st: "userStacks state (userId s) = Some st" by auto
    from room_inv_stack[OF inv st] m have "distinct st" "id' s \<in> set st" by auto
    then have "count_list st (id' s) = 1" by (rule count_list_distinct)
    with st show "\<exists>st. userStacks state (userId s) = Some st \<and> count_list st (id' s) = 1"
      by blast
  next
    fix s assume s: "s \<in> set (strokes state)"
      and "\<exists>st. userStacks state (userId s) = Some st \<and> count_list st (id' s) = 1"
    then obtain st where st: "userStacks state (userId s) = Some st" "count_list st (id' s) = 1"
      by blast
    from st(2) have "id' s \<in> set st" by (rule count_list_pos_mem)
    with room_inv_stack[OF inv st(1)] have "id' s \<in> set (live_ids (strokes state) (userId s))"
      by simp
    then obtain s' where s': "s' \<in> set (strokes state)" "id' s' = id' s" "\<not> truthy (removed s')"
      by (auto simp: live_ids_mem)
    from d s'(1) s s'(2) have "s' = s" by (rule same_id_same_stroke)
    with s'(3) show "\<not> truthy (removed s)" by simp
  qed
  have 3: "\<forall>u st. userStacks state u = Some st \<longrightarrow>
          distinct st \<and> (\<forall>i\<in>set st. \<exists>s\<in>set (strokes state). id' s = i \<and> userId s = u)"
  proof (intro allI impI)
    fix u st assume st: "userStacks state u = Some st"
    from room_inv_stack[OF inv st]
    show "distinct st \<and> (\<forall>i\<in>set st. \<exists>s\<in>set (strokes state). id' s = i \<and> userId s = u)"
      by (auto simp: live_ids_mem)
  qed
  have 4: "\<forall>u st. userStacks state u = Some st \<and> st \<noteq> [] \<longrightarrow>
          (\<exists>s. find (\<lambda>x. id' x = last st \<and> \<not> truthy (removed x)) (strokes state) = Some s
             \<and> undo_loop (strokes state) st =
                 (mutate_found (\<lambda>x. id' x = last st \<and> \<not> truthy (removed x))
                    (\<lambda>x. x\<lparr>removed := Some True\<rparr>) (strokes state),
                  butlast st, [Broadcast (remove_stroke_ev (last st)) False]))"
  proof (intro allI impI)
    fix u st assume h: "userStacks state u = Some st \<and> st \<noteq> []"
    then have st: "userStacks state u = Some (butlast st @ [last st])" by simp
    from room_inv_top_removable[OF inv st] obtain s where
      f: "find (\<lambda>x. id' x = last st \<and> \<not> truthy (removed x)) (strokes state) = Some s" by blast
    from undo_loop_hit[OF f, of "butlast st"] h
    have "undo_loop (strokes state) st =
                 (mutate_found (\<lambda>x. id' x = last st \<and> \<not> truthy (removed x))
                    (\<lambda>x. x\<lparr>removed := Some True\<rparr>) (strokes state),
                  butlast st, [Broadcast (remove_stroke_ev (last st)) False])"
      by simp
    with f show "\<exists>s. find (\<lambda>x. id' x = last st \<and> \<not> truthy (removed x)) (strokes state) = Some s
             \<and> undo_loop (strokes state) st =
                 (mutate_found (\<lambda>x. id' x = last st \<and> \<not> truthy (removed x))
                    (\<lambda>x. x\<lparr>removed := Some True\<rparr>) (strokes state),
                  butlast st, [Broadcast (remove_stroke_ev (last st)) False])"
      by blast
  qed
  show ?thesis by (intro conjI) (rule d, rule 2, rule 3, rule 4)
qed

lemma room_two_eq:
  "room_two = \<lparr>strokes =
       [\<lparr>id' = ''a'', userId = ''u'', color = ''#000'', size' = 2, tool = pen, points = [], removed = None\<rparr>,
        \<lparr>id' = ''b'', userId = ''u'', color = ''#000'', size' = 2, tool = pen, points = [], removed = None\<rparr>],
     userStacks = [''u'' \<mapsto> [''a'', ''b'']]\<rparr>"
  by (simp add: room_two_def begin_stroke_def Let_def push_stack_def get_prop_def
      object_prototype_def meta0_def)

lemma room_two_reachable: "reachable room_two"
proof -
  have r1: "reachable (fst (handle \<lparr>strokes = [], userStacks = Map.empty\<rparr>
       ''u'' ''a'' (BeginStroke ''r'' meta0)))"
    by (rule reachable.handled[OF reachable.created]) simp
  show ?thesis
    unfolding room_two_def
    by (rule reachable.handled[OF r1]) (simp add: begin_stroke_def Let_def split: sum.splits)
qed

lemma reachable_stack_invariant_example:
  "undo_loop (strokes room_two) [''a'', ''b''] =
       ([\<lparr>id' = ''a'', userId = ''u'', color = ''#000'', size' = 2, tool = pen, points = [], removed = None\<rparr>,
         \<lparr>id' = ''b'', userId = ''u'', color = ''#000'', size' = 2, tool = pen, points = [], removed = Some True\<rparr>],
        [''a''], [Broadcast (remove_stroke_ev ''b'') False])"
proof -
  note t = reachable_stack_invariant[OF room_two_reachable]
  have st: "userStacks room_two ''u'' = Some [''a'', ''b''] \<and> [''a'', ''b''] \<noteq> []"
    by (simp add: room_two_eq)
  from t st have "\<exists>s. find (\<lambda>x. id' x = last [''a'', ''b''] \<and> \<not> truthy (removed x)) (strokes room_two) = Some s
             \<and> undo_loop (strokes room_two) [''a'', ''b''] =
                 (mutate_found (\<lambda>x. id' x = last [''a'', ''b''] \<and> \<not> truthy (removed x))
                    (\<lambda>x. x\<lparr>removed := Some True\<rparr>) (strokes room_two),
                  butlast [''a'', ''b''], [Broadcast (remove_stroke_ev (last [''a'', ''b''])) False])"
    by blast
  then show ?thesis
    by (simp add: room_two_eq truthy_def)
qed

lemma room_constructor_reachable: "reachable room_constructor"
  unfolding room_constructor_def
  by (rule reachable.handled[OF reachable.created]) simp

text \<open>
  C8 does not hold of the code for every sequence of messages: a \<open>begin_stroke\<close> from a
  connection whose user id is \<open>constructor\<close> (chosen in its \<open>join_room\<close>) appends the
  stroke to the room, and then \<open>(state.userStacks[s.userId] ||= []).push(id)\<close> raises,
  because the key yields the inherited function \<open>Object\<close>; no stack is created. The room
  then holds a stroke that is not tombstoned and whose id is on no stack: under the
  stroke's user id \<open>userStacks\<close> has no entry of its own, and the lookup yields the
  inherited function, not an array that could hold the id. Here this is the first
  message the room \<open>r\<close> handles, the new stroke receiving the id \<open>a\<close>.
\<close>

theorem live_stroke_on_no_stack:
  "handle empty_room ''constructor'' ''a'' (BeginStroke ''r'' meta0) =
     (room_constructor, [Throw TypeError])
   \<and> room_constructor =
       \<lparr>strokes = [\<lparr>id' = ''a'', userId = ''constructor'', color = ''#000'', size' = 2, tool = pen,
                     points = [], removed = None\<rparr>],
         userStacks = Map.empty\<rparr>
   \<and> \<not> truthy (removed (hd (strokes room_constructor)))
   \<and> get_prop (userStacks room_constructor) (userId (hd (strokes room_constructor))) = Inherit (Method 1)
   \<and> \<not> (\<exists>st. userStacks room_constructor (userId (hd (strokes room_constructor))) = Some st
            \<and> count_list st (id' (hd (strokes room_constructor))) = 1)"
proof -
  have pc: "push_stack Map.empty ''constructor'' ''a'' = Inl TypeError"
    by (simp add: push_stack_def get_prop_def object_prototype_def)
  have h: "handle \<lparr>strokes = [], userStacks = Map.empty\<rparr> ''constructor'' ''a'' (BeginStroke ''r'' meta0) =
      (\<lparr>strokes = [\<lparr>id' = ''a'', userId = ''constructor'', color = ''#000'', size' = 2, tool = pen,
                     points = [], removed = None\<rparr>],
         userStacks = Map.empty\<rparr>, [Throw TypeError])"
    by (simp add: begin_stroke_def Let_def meta0_def pc)
  have 2: "room_constructor =
       \<lparr>strokes = [\<lparr>id' = ''a'', userId = ''constructor'', color = ''#000'', size' = 2, tool = pen,
                     points = [], removed = None\<rparr>],
         userStacks = Map.empty\<rparr>"
    unfolding room_constructor_def h by simp
  have 1: "handle empty_room ''constructor'' ''a'' (BeginStroke ''r'' meta0) =
     (room_constructor, [Throw TypeError])"
    unfolding 2 empty_room_def by (rule h)
  have 3: "\<not> truthy (removed (hd (strokes room_constructor)))"
    unfolding 2 by (simp add: truthy_def)
  have 4: "get_prop (userStacks room_constructor) (userId (hd (strokes room_constructor))) = Inherit (Method 1)"
    unfolding 2 by (simp add: get_prop_def object_prototype_def)
  have 5: "\<not> (\<exists>st. userStacks room_constructor (userId (hd (strokes room_constructor))) = Some st
            \<and> count_list st (id' (hd (strokes room_constructor))) = 1)"
    unfolding 2 by simp
  show ?thesis
    by (intro conjI) (rule 1, rule 2, rule 3, rule 4, rule 5)
qed

end
